theory Spec2Isabelle
  imports Main "HOL-Library.Word" "HOL-Library.Monad_Syntax"
begin

unbundle bit_operations_syntax

section \<open>Buffers and pointers\<close>

text \<open>
  The C++ code walks raw pointers over caller-provided arrays. An array is a list; a
  pointer into it is the list together with an index. A dereference outside the array is
  undefined behaviour in C++; here it is the value \<open>None\<close>, so every function returns
  \<open>Some\<close> only when all of its reads and writes stayed inside the arrays it was given.

  \<open>unsigned char\<close> is \<open>8 word\<close>, \<open>unsigned\<close> is \<open>32 word\<close>. Bytes read through
  \<open>*packedBuffer\<close> are promoted to \<open>int\<close> before \<open>&\<close>, \<open>>>\<close> and \<open><<\<close>; every such
  value is below \<open>2^12\<close>, so the promotion is the zero extension \<open>ucast\<close> to \<open>32 word\<close>.
  An assignment of an \<open>unsigned\<close> value to an \<open>unsigned char\<close> keeps the low eight bits
  (\<open>ucast\<close> to \<open>8 word\<close>). \<open>size_t\<close> counts are \<open>nat\<close>: the only arithmetic on them is
  \<open>symbolCount / k\<close>, \<open>limit * k \<le> symbolCount\<close> and \<open>++pos \<le> symbolCount\<close>, which
  cannot wrap.
\<close>

type_synonym u8 = "8 word"
type_synonym u32 = "32 word"

definition load :: "'a list \<Rightarrow> nat \<Rightarrow> 'a option" where
  "load buf i = (if i < length buf then Some (buf ! i) else None)"

definition store :: "'a list \<Rightarrow> nat \<Rightarrow> 'a \<Rightarrow> 'a list option" where
  "store buf i v = (if i < length buf then Some (buf[i := v]) else None)"

text \<open>\<open>*dest = e\<close> for an \<open>unsigned\<close> expression \<open>e\<close>.\<close>

definition assign_byte :: "u8 list \<Rightarrow> nat \<Rightarrow> u32 \<Rightarrow> u8 list option" where
  "assign_byte dest d e = store dest d (ucast e)"

text \<open>\<open>*dest |= e\<close>: the byte is read, promoted, or-ed with \<open>e\<close> and written back.\<close>

definition or_byte :: "u8 list \<Rightarrow> nat \<Rightarrow> u32 \<Rightarrow> u8 list option" where
  "or_byte dest d e = do { x \<leftarrow> load dest d; store dest d (ucast (ucast x OR e)) }"

text \<open>\<open>*packedBuffer\<close> as an operand: the byte, promoted.\<close>

definition load_byte :: "u8 list \<Rightarrow> nat \<Rightarrow> u32 option" where
  "load_byte packedBuffer p = map_option ucast (load packedBuffer p)"

text \<open>\<open>*symbolBuffer |= e\<close>.\<close>

definition or_symbol :: "u32 list \<Rightarrow> nat \<Rightarrow> u32 \<Rightarrow> u32 list option" where
  "or_symbol symbolBuffer s e = do { x \<leftarrow> load symbolBuffer s; store symbolBuffer s (x OR e) }"

section \<open>BytePacker\<close>

text \<open>
  Each \<open>for(size_t i=0; i!=limit; i++)\<close> loop of \<open>pack4\<close>, \<open>pack6\<close>, \<open>pack12\<close> and their
  inverses does not use \<open>i\<close> in its body: it runs the body \<open>limit\<close> times. The loop is a
  primitive recursion on the number of iterations; the state that the body changes (the
  written array and the two pointers) is passed along.

  \<open>pack*\<close> take the destination array \<open>dest\<close> and the index \<open>d\<close> of the byte that the
  pointer argument points to, then the symbol array (the pointer argument points to its
  first element) and the count. \<open>unpack*\<close> take the symbol array to fill, the packed array
  and the index \<open>p\<close> that the pointer argument points to, and the count.
\<close>

subsection \<open>Six bits\<close>

definition pack6_group :: "u32 list \<Rightarrow> u8 list \<times> nat \<times> nat \<Rightarrow> (u8 list \<times> nat \<times> nat) option" where
  "pack6_group symbolBuffer st = (case st of (dest, d, s) \<Rightarrow> do {
     a \<leftarrow> load symbolBuffer s;
     dest \<leftarrow> assign_byte dest d a;
     let s = s + 1;
     b \<leftarrow> load symbolBuffer s;
     dest \<leftarrow> or_byte dest d (push_bit 6 (b AND 3));
     let d = d + 1;
     b \<leftarrow> load symbolBuffer s;
     dest \<leftarrow> assign_byte dest d (drop_bit 2 (b AND 60));
     let s = s + 1;
     c \<leftarrow> load symbolBuffer s;
     dest \<leftarrow> or_byte dest d (push_bit 4 (c AND 15));
     let d = d + 1;
     c \<leftarrow> load symbolBuffer s;
     dest \<leftarrow> assign_byte dest d (drop_bit 4 (c AND 48));
     let s = s + 1;
     e \<leftarrow> load symbolBuffer s;
     dest \<leftarrow> or_byte dest d (push_bit 2 e);
     let s = s + 1;
     let d = d + 1;
     Some (dest, d, s)
   })"

primrec pack6_loop :: "nat \<Rightarrow> u32 list \<Rightarrow> u8 list \<times> nat \<times> nat \<Rightarrow> (u8 list \<times> nat \<times> nat) option" where
  "pack6_loop 0 symbolBuffer st = Some st"
| "pack6_loop (Suc n) symbolBuffer st = pack6_group symbolBuffer st \<bind> pack6_loop n symbolBuffer"

definition pack6 :: "u8 list \<Rightarrow> nat \<Rightarrow> u32 list \<Rightarrow> nat \<Rightarrow> u8 list option" where
  "pack6 dest d symbolBuffer symbolCount = do {
     let limit = symbolCount div 4;
     (dest, d, s) \<leftarrow> pack6_loop limit symbolBuffer (dest, d, 0);
     let pos = limit * 4;
     if pos < symbolCount then do {
       a \<leftarrow> load symbolBuffer s;
       dest \<leftarrow> assign_byte dest d a;
       let pos = pos + 1;
       if pos < symbolCount then do {
         let s = s + 1;
         b \<leftarrow> load symbolBuffer s;
         dest \<leftarrow> or_byte dest d (push_bit 6 (b AND 3));
         let d = d + 1;
         b \<leftarrow> load symbolBuffer s;
         dest \<leftarrow> assign_byte dest d (drop_bit 2 (b AND 60));
         let pos = pos + 1;
         if pos < symbolCount then do {
           let s = s + 1;
           c \<leftarrow> load symbolBuffer s;
           dest \<leftarrow> or_byte dest d (push_bit 4 (c AND 15));
           let d = d + 1;
           c \<leftarrow> load symbolBuffer s;
           assign_byte dest d (drop_bit 4 (c AND 48))
         } else Some dest
       } else Some dest
     } else Some dest
   }"

definition unpack6_group :: "u8 list \<Rightarrow> u32 list \<times> nat \<times> nat \<Rightarrow> (u32 list \<times> nat \<times> nat) option" where
  "unpack6_group packedBuffer st = (case st of (symbolBuffer, s, p) \<Rightarrow> do {
     x \<leftarrow> load_byte packedBuffer p;
     symbolBuffer \<leftarrow> store symbolBuffer s (x AND 63);
     let s = s + 1;
     x \<leftarrow> load_byte packedBuffer p;
     symbolBuffer \<leftarrow> store symbolBuffer s (drop_bit 6 (x AND 192));
     let p = p + 1;
     y \<leftarrow> load_byte packedBuffer p;
     symbolBuffer \<leftarrow> or_symbol symbolBuffer s (push_bit 2 (y AND 15));
     let s = s + 1;
     y \<leftarrow> load_byte packedBuffer p;
     symbolBuffer \<leftarrow> store symbolBuffer s (drop_bit 4 (y AND 240));
     let p = p + 1;
     z \<leftarrow> load_byte packedBuffer p;
     symbolBuffer \<leftarrow> or_symbol symbolBuffer s (push_bit 4 (z AND 3));
     let s = s + 1;
     z \<leftarrow> load_byte packedBuffer p;
     symbolBuffer \<leftarrow> store symbolBuffer s (drop_bit 2 (z AND 252));
     let p = p + 1;
     let s = s + 1;
     Some (symbolBuffer, s, p)
   })"

primrec unpack6_loop :: "nat \<Rightarrow> u8 list \<Rightarrow> u32 list \<times> nat \<times> nat \<Rightarrow> (u32 list \<times> nat \<times> nat) option" where
  "unpack6_loop 0 packedBuffer st = Some st"
| "unpack6_loop (Suc n) packedBuffer st = unpack6_group packedBuffer st \<bind> unpack6_loop n packedBuffer"

definition unpack6 :: "u32 list \<Rightarrow> u8 list \<Rightarrow> nat \<Rightarrow> nat \<Rightarrow> u32 list option" where
  "unpack6 symbolBuffer packedBuffer p symbolCount = do {
     let limit = symbolCount div 4;
     (symbolBuffer, s, p) \<leftarrow> unpack6_loop limit packedBuffer (symbolBuffer, 0, p);
     let pos = limit * 4;
     if pos < symbolCount then do {
       x \<leftarrow> load_byte packedBuffer p;
       symbolBuffer \<leftarrow> store symbolBuffer s (x AND 63);
       let pos = pos + 1;
       if pos < symbolCount then do {
         let s = s + 1;
         x \<leftarrow> load_byte packedBuffer p;
         symbolBuffer \<leftarrow> store symbolBuffer s (drop_bit 6 (x AND 192));
         let p = p + 1;
         y \<leftarrow> load_byte packedBuffer p;
         symbolBuffer \<leftarrow> or_symbol symbolBuffer s (push_bit 2 (y AND 15));
         let pos = pos + 1;
         if pos < symbolCount then do {
           let s = s + 1;
           y \<leftarrow> load_byte packedBuffer p;
           symbolBuffer \<leftarrow> store symbolBuffer s (drop_bit 4 (y AND 240));
           let p = p + 1;
           z \<leftarrow> load_byte packedBuffer p;
           or_symbol symbolBuffer s (push_bit 4 (z AND 3))
         } else Some symbolBuffer
       } else Some symbolBuffer
     } else Some symbolBuffer
   }"

subsection \<open>Four bits\<close>

definition pack4_group :: "u32 list \<Rightarrow> u8 list \<times> nat \<times> nat \<Rightarrow> (u8 list \<times> nat \<times> nat) option" where
  "pack4_group symbolBuffer st = (case st of (dest, d, s) \<Rightarrow> do {
     a \<leftarrow> load symbolBuffer s;
     dest \<leftarrow> assign_byte dest d a;
     let s = s + 1;
     b \<leftarrow> load symbolBuffer s;
     dest \<leftarrow> or_byte dest d (push_bit 4 b);
     let s = s + 1;
     let d = d + 1;
     Some (dest, d, s)
   })"

primrec pack4_loop :: "nat \<Rightarrow> u32 list \<Rightarrow> u8 list \<times> nat \<times> nat \<Rightarrow> (u8 list \<times> nat \<times> nat) option" where
  "pack4_loop 0 symbolBuffer st = Some st"
| "pack4_loop (Suc n) symbolBuffer st = pack4_group symbolBuffer st \<bind> pack4_loop n symbolBuffer"

definition pack4 :: "u8 list \<Rightarrow> nat \<Rightarrow> u32 list \<Rightarrow> nat \<Rightarrow> u8 list option" where
  "pack4 dest d symbolBuffer symbolCount = do {
     let limit = symbolCount div 2;
     (dest, d, s) \<leftarrow> pack4_loop limit symbolBuffer (dest, d, 0);
     if limit * 2 \<noteq> symbolCount then do {
       a \<leftarrow> load symbolBuffer s;
       assign_byte dest d a
     } else Some dest
   }"

definition unpack4_group :: "u8 list \<Rightarrow> u32 list \<times> nat \<times> nat \<Rightarrow> (u32 list \<times> nat \<times> nat) option" where
  "unpack4_group packedBuffer st = (case st of (symbolBuffer, s, p) \<Rightarrow> do {
     x \<leftarrow> load_byte packedBuffer p;
     symbolBuffer \<leftarrow> store symbolBuffer s (x AND 0x0F);
     let s = s + 1;
     x \<leftarrow> load_byte packedBuffer p;
     symbolBuffer \<leftarrow> store symbolBuffer s (drop_bit 4 (x AND 0xF0));
     let s = s + 1;
     let p = p + 1;
     Some (symbolBuffer, s, p)
   })"

primrec unpack4_loop :: "nat \<Rightarrow> u8 list \<Rightarrow> u32 list \<times> nat \<times> nat \<Rightarrow> (u32 list \<times> nat \<times> nat) option" where
  "unpack4_loop 0 packedBuffer st = Some st"
| "unpack4_loop (Suc n) packedBuffer st = unpack4_group packedBuffer st \<bind> unpack4_loop n packedBuffer"

definition unpack4 :: "u32 list \<Rightarrow> u8 list \<Rightarrow> nat \<Rightarrow> nat \<Rightarrow> u32 list option" where
  "unpack4 symbolBuffer packedBuffer p symbolCount = do {
     let limit = symbolCount div 2;
     (symbolBuffer, s, p) \<leftarrow> unpack4_loop limit packedBuffer (symbolBuffer, 0, p);
     if limit * 2 \<noteq> symbolCount then do {
       x \<leftarrow> load_byte packedBuffer p;
       store symbolBuffer s (x AND 0x0F)
     } else Some symbolBuffer
   }"

subsection \<open>Eight bits\<close>

text \<open>
  \<open>for(size_t i=0; i!=symbolCount; ++i) dest[i] = symbolBuffer[i]\<close>: the body uses the
  counter, so the recursion carries it: \<open>pack8_loop n i\<close> runs the \<open>n\<close> iterations that
  start at counter value \<open>i\<close>.
\<close>

primrec pack8_loop :: "nat \<Rightarrow> nat \<Rightarrow> nat \<Rightarrow> u32 list \<Rightarrow> u8 list \<Rightarrow> u8 list option" where
  "pack8_loop 0 i d symbolBuffer dest = Some dest"
| "pack8_loop (Suc n) i d symbolBuffer dest = do {
     a \<leftarrow> load symbolBuffer i;
     dest \<leftarrow> assign_byte dest (d + i) a;
     pack8_loop n (i + 1) d symbolBuffer dest
   }"

definition pack8 :: "u8 list \<Rightarrow> nat \<Rightarrow> u32 list \<Rightarrow> nat \<Rightarrow> u8 list option" where
  "pack8 dest d symbolBuffer symbolCount = pack8_loop symbolCount 0 d symbolBuffer dest"

primrec unpack8_loop :: "nat \<Rightarrow> nat \<Rightarrow> nat \<Rightarrow> u8 list \<Rightarrow> u32 list \<Rightarrow> u32 list option" where
  "unpack8_loop 0 i p packedBuffer symbolBuffer = Some symbolBuffer"
| "unpack8_loop (Suc n) i p packedBuffer symbolBuffer = do {
     x \<leftarrow> load_byte packedBuffer (p + i);
     symbolBuffer \<leftarrow> store symbolBuffer i x;
     unpack8_loop n (i + 1) p packedBuffer symbolBuffer
   }"

definition unpack8 :: "u32 list \<Rightarrow> u8 list \<Rightarrow> nat \<Rightarrow> nat \<Rightarrow> u32 list option" where
  "unpack8 symbolBuffer packedBuffer p symbolCount = unpack8_loop symbolCount 0 p packedBuffer symbolBuffer"

subsection \<open>Twelve bits\<close>

definition pack12_group :: "u32 list \<Rightarrow> u8 list \<times> nat \<times> nat \<Rightarrow> (u8 list \<times> nat \<times> nat) option" where
  "pack12_group symbolBuffer st = (case st of (dest, d, s) \<Rightarrow> do {
     a \<leftarrow> load symbolBuffer s;
     dest \<leftarrow> assign_byte dest d (a AND 0x0FF);
     let d = d + 1;
     a \<leftarrow> load symbolBuffer s;
     dest \<leftarrow> assign_byte dest d (drop_bit 8 (a AND 0xF00));
     let s = s + 1;
     b \<leftarrow> load symbolBuffer s;
     dest \<leftarrow> or_byte dest d (push_bit 4 (b AND 0x00F));
     let d = d + 1;
     b \<leftarrow> load symbolBuffer s;
     dest \<leftarrow> assign_byte dest d (drop_bit 4 (b AND 0xFF0));
     let s = s + 1;
     let d = d + 1;
     Some (dest, d, s)
   })"

primrec pack12_loop :: "nat \<Rightarrow> u32 list \<Rightarrow> u8 list \<times> nat \<times> nat \<Rightarrow> (u8 list \<times> nat \<times> nat) option" where
  "pack12_loop 0 symbolBuffer st = Some st"
| "pack12_loop (Suc n) symbolBuffer st = pack12_group symbolBuffer st \<bind> pack12_loop n symbolBuffer"

definition pack12 :: "u8 list \<Rightarrow> nat \<Rightarrow> u32 list \<Rightarrow> nat \<Rightarrow> u8 list option" where
  "pack12 dest d symbolBuffer symbolCount = do {
     let limit = symbolCount div 2;
     (dest, d, s) \<leftarrow> pack12_loop limit symbolBuffer (dest, d, 0);
     if limit * 2 \<noteq> symbolCount then do {
       a \<leftarrow> load symbolBuffer s;
       dest \<leftarrow> assign_byte dest d (a AND 0x0FF);
       let d = d + 1;
       a \<leftarrow> load symbolBuffer s;
       assign_byte dest d (drop_bit 8 (a AND 0xF00))
     } else Some dest
   }"

definition unpack12_group :: "u8 list \<Rightarrow> u32 list \<times> nat \<times> nat \<Rightarrow> (u32 list \<times> nat \<times> nat) option" where
  "unpack12_group packedBuffer st = (case st of (symbolBuffer, s, p) \<Rightarrow> do {
     x \<leftarrow> load_byte packedBuffer p;
     symbolBuffer \<leftarrow> store symbolBuffer s x;
     let p = p + 1;
     y \<leftarrow> load_byte packedBuffer p;
     symbolBuffer \<leftarrow> or_symbol symbolBuffer s (push_bit 8 (y AND 0x0F));
     let s = s + 1;
     y \<leftarrow> load_byte packedBuffer p;
     symbolBuffer \<leftarrow> store symbolBuffer s (drop_bit 4 (y AND 0xF0));
     let p = p + 1;
     z \<leftarrow> load_byte packedBuffer p;
     symbolBuffer \<leftarrow> or_symbol symbolBuffer s (push_bit 4 (z AND 0xFF));
     let p = p + 1;
     let s = s + 1;
     Some (symbolBuffer, s, p)
   })"

primrec unpack12_loop :: "nat \<Rightarrow> u8 list \<Rightarrow> u32 list \<times> nat \<times> nat \<Rightarrow> (u32 list \<times> nat \<times> nat) option" where
  "unpack12_loop 0 packedBuffer st = Some st"
| "unpack12_loop (Suc n) packedBuffer st = unpack12_group packedBuffer st \<bind> unpack12_loop n packedBuffer"

definition unpack12 :: "u32 list \<Rightarrow> u8 list \<Rightarrow> nat \<Rightarrow> nat \<Rightarrow> u32 list option" where
  "unpack12 symbolBuffer packedBuffer p symbolCount = do {
     let limit = symbolCount div 2;
     (symbolBuffer, s, p) \<leftarrow> unpack12_loop limit packedBuffer (symbolBuffer, 0, p);
     if limit * 2 \<noteq> symbolCount then do {
       x \<leftarrow> load_byte packedBuffer p;
       symbolBuffer \<leftarrow> store symbolBuffer s x;
       let p = p + 1;
       y \<leftarrow> load_byte packedBuffer p;
       or_symbol symbolBuffer s (push_bit 8 (y AND 0x0F))
     } else Some symbolBuffer
   }"

subsection \<open>Dispatch on the bit count\<close>

text \<open>
  The \<open>switch\<close> has no \<open>default\<close> branch (the \<open>throw\<close> is commented out): any other
  bit count falls through and the function returns with nothing done.
\<close>

definition pack :: "u32 \<Rightarrow> u8 list \<Rightarrow> nat \<Rightarrow> u32 list \<Rightarrow> nat \<Rightarrow> u8 list option" where
  "pack bitCount dest d symbolBuffer symbolCount =
     (if bitCount = 4 then pack4 dest d symbolBuffer symbolCount
      else if bitCount = 6 then pack6 dest d symbolBuffer symbolCount
      else if bitCount = 8 then pack8 dest d symbolBuffer symbolCount
      else if bitCount = 12 then pack12 dest d symbolBuffer symbolCount
      else Some dest)"

definition unpack :: "u32 \<Rightarrow> u32 list \<Rightarrow> u8 list \<Rightarrow> nat \<Rightarrow> nat \<Rightarrow> u32 list option" where
  "unpack bitCount symbolBuffer packedBuffer p symbolCount =
     (if bitCount = 4 then unpack4 symbolBuffer packedBuffer p symbolCount
      else if bitCount = 6 then unpack6 symbolBuffer packedBuffer p symbolCount
      else if bitCount = 8 then unpack8 symbolBuffer packedBuffer p symbolCount
      else if bitCount = 12 then unpack12 symbolBuffer packedBuffer p symbolCount
      else Some symbolBuffer)"

text \<open>
  The size that the class comment promises: \<open>ceil(symbolCount * bitCount / 8)\<close> bytes.
\<close>

definition packed_size :: "nat \<Rightarrow> nat \<Rightarrow> nat" where
  "packed_size bitCount symbolCount = (symbolCount * bitCount + 7) div 8"


text \<open>
  Names for the byte expressions of \<open>pack6\<close>, as the statements of the source compute them:
  the first assignment truncates to a byte, \<open>|=\<close> promotes it again, ors and truncates.
\<close>

definition p6_b0 :: "u32 \<Rightarrow> u32 \<Rightarrow> u8" where
  "p6_b0 a b = ucast (ucast (ucast a :: u8) OR push_bit 6 (b AND 3) :: u32)"

definition p6_b1 :: "u32 \<Rightarrow> u32 \<Rightarrow> u8" where
  "p6_b1 b c = ucast (ucast (ucast (drop_bit 2 (b AND 60)) :: u8) OR push_bit 4 (c AND 15) :: u32)"

definition p6_b2 :: "u32 \<Rightarrow> u32 \<Rightarrow> u8" where
  "p6_b2 c e = ucast (ucast (ucast (drop_bit 4 (c AND 48)) :: u8) OR push_bit 2 e :: u32)"

text \<open>The last byte that the tail of \<open>pack6\<close> writes for two and for three left-over symbols.\<close>

definition p6_t1 :: "u32 \<Rightarrow> u8" where
  "p6_t1 b = ucast (drop_bit 2 (b AND 60))"

definition p6_t2 :: "u32 \<Rightarrow> u8" where
  "p6_t2 c = ucast (drop_bit 4 (c AND 48))"

text \<open>Names for the symbol expressions of \<open>unpack6\<close>, from the promoted bytes.\<close>

definition u6_a :: "u8 \<Rightarrow> u32" where
  "u6_a x = ucast x AND 63"

definition u6_b :: "u8 \<Rightarrow> u8 \<Rightarrow> u32" where
  "u6_b x y = drop_bit 6 (ucast x AND 192) OR push_bit 2 (ucast y AND 15)"

definition u6_c :: "u8 \<Rightarrow> u8 \<Rightarrow> u32" where
  "u6_c y z = drop_bit 4 (ucast y AND 240) OR push_bit 4 (ucast z AND 3)"

definition u6_d :: "u8 \<Rightarrow> u32" where
  "u6_d z = drop_bit 2 (ucast z AND 252)"

text \<open>The byte and symbol expressions of \<open>pack4\<close> and \<open>unpack4\<close>.\<close>

definition p4_b :: "u32 \<Rightarrow> u32 \<Rightarrow> u8" where
  "p4_b a b = ucast (ucast (ucast a :: u8) OR push_bit 4 b :: u32)"

definition u4_lo :: "u8 \<Rightarrow> u32" where
  "u4_lo x = ucast x AND 0x0F"

definition u4_hi :: "u8 \<Rightarrow> u32" where
  "u4_hi x = drop_bit 4 (ucast x AND 0xF0)"

text \<open>The byte and symbol expressions of \<open>pack12\<close> and \<open>unpack12\<close>.\<close>

definition p12_b0 :: "u32 \<Rightarrow> u8" where
  "p12_b0 a = ucast (a AND 0x0FF)"

definition p12_t1 :: "u32 \<Rightarrow> u8" where
  "p12_t1 a = ucast (drop_bit 8 (a AND 0xF00))"

definition p12_b1 :: "u32 \<Rightarrow> u32 \<Rightarrow> u8" where
  "p12_b1 a b = ucast (ucast (ucast (drop_bit 8 (a AND 0xF00)) :: u8) OR push_bit 4 (b AND 0x00F) :: u32)"

definition p12_b2 :: "u32 \<Rightarrow> u8" where
  "p12_b2 b = ucast (drop_bit 4 (b AND 0xFF0))"

definition u12_a :: "u8 \<Rightarrow> u8 \<Rightarrow> u32" where
  "u12_a x y = ucast x OR push_bit 8 (ucast y AND 0x0F)"

definition u12_b :: "u8 \<Rightarrow> u8 \<Rightarrow> u32" where
  "u12_b y z = drop_bit 4 (ucast y AND 0xF0) OR push_bit 4 (ucast z AND 0xFF)"

section \<open>OffringaWeightColumn\<close>

text \<open>
  The column object of \<open>offringaweightcol.cpp\<close> with the part of the world that its
  methods change. The fields \<open>m_bitsPerSymbol\<close> to \<open>m_dataCopyBuffer\<close> are the members
  \<open>_bitsPerSymbol\<close>, \<open>_symbolsPerCell\<close>, \<open>_shape\<close>, \<open>_encoder\<close>, \<open>_packBuffer\<close>,
  \<open>_symbolBuffer\<close> and \<open>_dataCopyBuffer\<close>. The two pointer members are addresses
  (\<open>None\<close> is the null pointer) into an explicit store: \<open>arrays\<close> holds the live
  \<open>unsigned char[]\<close> blocks and \<open>encoders\<close> the live \<open>WeightEncoder\<close> objects, each
  represented by the quantisation count its constructor was given. \<open>next_addr\<close> is the
  allocator's next fresh address and \<open>storage\<close> the rows that the storage manager holds.

  A \<open>float\<close> is its 32-bit pattern; \<open>sizeof(float)\<close> is 4. The members' declared integer
  types are in \<open>offringaweightcol.h\<close>, which is not among the sources: \<open>_bitsPerSymbol\<close>
  is passed as the \<open>unsigned\<close> argument of \<open>BytePacker::pack\<close> and is a \<open>32 word\<close>;
  \<open>_symbolsPerCell\<close> is taken as an \<open>unsigned\<close> of 32 bits as well. It is kept as a
  natural number, and the one place that computes it, the product in \<open>Prepare\<close>, reduces
  each result modulo \<open>2 ^ 32\<close>, as the assignment to the member does. The dimensions of the
  shape are natural numbers.
\<close>

datatype error = OffringaStManError string | Undefined

type_synonym float32 = "32 word"

definition sizeof_float :: nat where
  "sizeof_float = 4"

record state =
  m_bitsPerSymbol :: u32
  m_symbolsPerCell :: nat
  m_shape :: "nat list"
  m_encoder :: "nat option"
  m_packBuffer :: "nat option"
  m_symbolBuffer :: "u32 list"
  m_dataCopyBuffer :: "float32 list"
  arrays :: "nat \<rightharpoonup> u8 list"
  encoders :: "nat \<rightharpoonup> int"
  next_addr :: nat
  storage :: "nat \<rightharpoonup> u8 list"

text \<open>
  \<open>delete p\<close> and \<open>delete[] p\<close>: nothing for the null pointer, the block is released
  for a live one, and undefined behaviour (\<open>None\<close>) for any other address. The member
  keeps its now dangling value until it is assigned.
\<close>

definition delete_encoder :: "state \<Rightarrow> state option" where
  "delete_encoder st = (case m_encoder st of
       None \<Rightarrow> Some st
     | Some a \<Rightarrow> if a \<in> dom (encoders st) then Some (st\<lparr>encoders := (encoders st)(a := None)\<rparr>) else None)"

definition delete_packBuffer :: "state \<Rightarrow> state option" where
  "delete_packBuffer st = (case m_packBuffer st of
       None \<Rightarrow> Some st
     | Some a \<Rightarrow> if a \<in> dom (arrays st) then Some (st\<lparr>arrays := (arrays st)(a := None)\<rparr>) else None)"

text \<open>
  \<open>_encoder = new WeightEncoder<float>(n)\<close> and \<open>_packBuffer = new unsigned char[n]\<close>.
  The bytes of a new array are indeterminate: they are read from the parameter
  \<open>uninit\<close>, about which nothing is assumed.
\<close>

definition new_encoder :: "int \<Rightarrow> state \<Rightarrow> state" where
  "new_encoder n st = st\<lparr>encoders := (encoders st)(next_addr st \<mapsto> n),
     m_encoder := Some (next_addr st), next_addr := next_addr st + 1\<rparr>"

definition new_packBuffer :: "(nat \<Rightarrow> u8) \<Rightarrow> nat \<Rightarrow> state \<Rightarrow> state" where
  "new_packBuffer uninit n st = st\<lparr>arrays := (arrays st)(next_addr st \<mapsto> map uninit [0..<n]),
     m_packBuffer := Some (next_addr st), next_addr := next_addr st + 1\<rparr>"

text \<open>
  \<open>1 << _bitsPerSymbol\<close>: the literal is an \<open>int\<close> of 32 bits. A shift by 32 or more is
  undefined behaviour; a shift by 31 gives the bit pattern of \<open>INT_MIN\<close>.
\<close>

definition shl_int :: "u32 \<Rightarrow> int option" where
  "shl_int b = (if unat b < 32 then Some (sint (push_bit (unat b) (1 :: 32 word))) else None)"

text \<open>\<open>std::vector::resize(n)\<close>: the first elements are kept, new ones are zero.\<close>

definition resize :: "nat \<Rightarrow> 'a::zero list \<Rightarrow> 'a list" where
  "resize n xs = take n xs @ replicate (n - length xs) 0"

text \<open>
  Modelled from the spec: \<open>Stride()\<close> is defined in \<open>offringaweightcol.h\<close>, which is not
  among the sources. The spec gives
  \<open>stride = sizeof(float) + ceil(symbolsPerCell * bitsPerSymbol / 8)\<close>.
\<close>

definition Stride :: "state \<Rightarrow> nat" where
  "Stride st = sizeof_float + (m_symbolsPerCell st * unat (m_bitsPerSymbol st) + 7) div 8"

definition setShapeColumn :: "nat list \<Rightarrow> state \<Rightarrow> state" where
  "setShapeColumn shp st = st\<lparr>m_shape := shp\<rparr>"

text \<open>
  \<open>_symbolsPerCell *= *i\<close>, the body of the loop over the shape: the product is stored
  in the 32-bit member and wraps around.
\<close>

definition mul_symbolsPerCell :: "nat \<Rightarrow> state \<Rightarrow> state" where
  "mul_symbolsPerCell i st = st\<lparr>m_symbolsPerCell := (m_symbolsPerCell st * i) mod 2 ^ 32\<rparr>"

text \<open>
  \<open>Prepare\<close> returns the exception that left it, if any, and the state it left behind.
  The loop over the shape multiplies \<open>_symbolsPerCell\<close>, which starts at 1, by each
  dimension in turn.
\<close>

definition Prepare :: "(nat \<Rightarrow> u8) \<Rightarrow> state \<Rightarrow> error option \<times> state" where
  "Prepare uninit st =
     (if m_bitsPerSymbol st = 0
      then (Some (OffringaStManError ''bitsPerSymbol not initialized in OffringaWeightCol''), st)
      else case delete_encoder st of
        None \<Rightarrow> (Some Undefined, st)
      | Some st \<Rightarrow>
       (case shl_int (m_bitsPerSymbol st) of
          None \<Rightarrow> (Some Undefined, st)
        | Some n \<Rightarrow>
            let st = new_encoder n st;
                st = st\<lparr>m_symbolsPerCell := 1\<rparr>;
                st = fold mul_symbolsPerCell (m_shape st) st
            in (case delete_packBuffer st of
                  None \<Rightarrow> (Some Undefined, st)
                | Some st \<Rightarrow>
                    let st = new_packBuffer uninit (Stride st) st;
                        st = st\<lparr>m_symbolBuffer := resize (m_symbolsPerCell st) (m_symbolBuffer st)\<rparr>;
                        st = st\<lparr>m_dataCopyBuffer := resize (m_symbolsPerCell st) (m_dataCopyBuffer st)\<rparr>
                    in (None, st))))"

text \<open>
  Modelled from the spec: \<open>WeightEncoder\<close> is declared in \<open>weightencoder.h\<close>, which is not
  among the sources. The spec gives its contract as \<open>Encode(outScale, outSymbols, inValues)\<close>
  and \<open>Decode(outValues, scale, inSymbols)\<close>. Both are parameters here: \<open>Encode\<close> gets
  the encoder's quantisation count, the values and the symbol vector it may overwrite and
  returns the scale and the new symbol vector; \<open>Decode\<close> gets the count, the scale, the
  symbols and the value vector it may overwrite and returns the new value vector.
\<close>

record coder =
  Encode :: "int \<Rightarrow> float32 list \<Rightarrow> u32 list \<Rightarrow> float32 \<times> u32 list"
  Decode :: "int \<Rightarrow> float32 \<Rightarrow> u32 list \<Rightarrow> float32 list \<Rightarrow> float32 list"

text \<open>
  \<open>*reinterpret_cast<float*>(_packBuffer)\<close> is the \<open>float\<close> whose object representation
  is the first four bytes of the array. The byte order is the platform's; it is taken as
  little-endian here and no theorem below depends on the choice.
\<close>

definition float_bytes :: "float32 \<Rightarrow> u8 list" where
  "float_bytes x = [ucast x, ucast (drop_bit 8 x), ucast (drop_bit 16 x), ucast (drop_bit 24 x)]"

definition bytes_float :: "u8 list \<Rightarrow> float32" where
  "bytes_float bs = ucast (bs ! 0) OR push_bit 8 (ucast (bs ! 1))
     OR push_bit 16 (ucast (bs ! 2)) OR push_bit 24 (ucast (bs ! 3))"

text \<open>
  Modelled from the spec: \<open>readCompressedData\<close> and \<open>writeCompressedData\<close> belong to the
  base class \<open>OffringaStManColumn\<close>, which is not among the sources. By the spec the
  storage framework supplies, per row, a buffer of exactly \<open>stride\<close> bytes for a read and
  accepts a buffer of exactly \<open>stride\<close> bytes for a write. A row that the storage does not
  hold with that size, or a buffer shorter than the stride, is outside that contract
  (\<open>None\<close>).
\<close>

definition readCompressedData :: "nat \<Rightarrow> u8 list \<Rightarrow> state \<Rightarrow> u8 list option" where
  "readCompressedData rowNr buf st = (case storage st rowNr of
       None \<Rightarrow> None
     | Some cell \<Rightarrow> if length cell = Stride st \<and> Stride st \<le> length buf
                    then Some (cell @ drop (Stride st) buf) else None)"

definition writeCompressedData :: "nat \<Rightarrow> u8 list \<Rightarrow> state \<Rightarrow> state option" where
  "writeCompressedData rowNr buf st =
     (if Stride st \<le> length buf then Some (st\<lparr>storage := (storage st)(rowNr \<mapsto> take (Stride st) buf)\<rparr>)
      else None)"

text \<open>
  The two copy loops. \<open>copy_in\<close> walks the caller's array and writes through the iterator
  \<open>j\<close> that starts at the beginning of \<open>_dataCopyBuffer\<close>; \<open>copy_out n\<close> walks the \<open>n\<close>
  elements of the caller's array and reads through \<open>j\<close>. An access past the end of a
  vector is undefined behaviour.
\<close>

fun copy_in :: "float32 list \<Rightarrow> nat \<Rightarrow> float32 list \<Rightarrow> float32 list option" where
  "copy_in [] j buf = Some buf"
| "copy_in (x # xs) j buf = store buf j x \<bind> copy_in xs (j + 1)"

primrec copy_out :: "nat \<Rightarrow> nat \<Rightarrow> float32 list \<Rightarrow> float32 list \<Rightarrow> float32 list option" where
  "copy_out 0 j src dataPtr = Some dataPtr"
| "copy_out (Suc n) j src dataPtr = do {
     x \<leftarrow> load src j;
     dataPtr \<leftarrow> store dataPtr j x;
     copy_out n (j + 1) src dataPtr
   }"

text \<open>
  \<open>putArrayfloatV\<close> (the spec's WriteCell). The result is \<open>None\<close> when the call has
  undefined behaviour: a null or dangling member pointer, an access outside a buffer.
\<close>

definition putArrayfloatV :: "coder \<Rightarrow> nat \<Rightarrow> float32 list \<Rightarrow> state \<Rightarrow> state option" where
  "putArrayfloatV c rowNr dataPtr st = do {
     dcb \<leftarrow> copy_in dataPtr 0 (m_dataCopyBuffer st);
     let st = st\<lparr>m_dataCopyBuffer := dcb\<rparr>;
     e \<leftarrow> m_encoder st;
     n \<leftarrow> encoders st e;
     pb \<leftarrow> m_packBuffer st;
     buf \<leftarrow> arrays st pb;
     if length buf < sizeof_float then None else do {
       let (scale, syms) = Encode c n (m_dataCopyBuffer st) (m_symbolBuffer st);
       let buf = float_bytes scale @ drop sizeof_float buf;
       let st = st\<lparr>m_symbolBuffer := syms\<rparr>;
       buf \<leftarrow> pack (m_bitsPerSymbol st) buf sizeof_float (m_symbolBuffer st) (m_symbolsPerCell st);
       let st = st\<lparr>arrays := (arrays st)(pb \<mapsto> buf)\<rparr>;
       writeCompressedData rowNr buf st
     }
   }"

text \<open>
  \<open>getArrayfloatV\<close> (the spec's ReadCell) returns the new contents of the caller's array
  and the new state.
\<close>

definition getArrayfloatV :: "coder \<Rightarrow> nat \<Rightarrow> float32 list \<Rightarrow> state \<Rightarrow> (float32 list \<times> state) option" where
  "getArrayfloatV c rowNr dataPtr st = do {
     pb \<leftarrow> m_packBuffer st;
     buf \<leftarrow> arrays st pb;
     buf \<leftarrow> readCompressedData rowNr buf st;
     let st = st\<lparr>arrays := (arrays st)(pb \<mapsto> buf)\<rparr>;
     syms \<leftarrow> unpack (m_bitsPerSymbol st) (m_symbolBuffer st) buf sizeof_float (m_symbolsPerCell st);
     let st = st\<lparr>m_symbolBuffer := syms\<rparr>;
     e \<leftarrow> m_encoder st;
     n \<leftarrow> encoders st e;
     if length buf < sizeof_float then None else do {
       let st = st\<lparr>m_dataCopyBuffer :=
          Decode c n (bytes_float (take sizeof_float buf)) (m_symbolBuffer st) (m_dataCopyBuffer st)\<rparr>;
       out \<leftarrow> copy_out (length dataPtr) 0 (m_dataCopyBuffer st) dataPtr;
       Some (out, st)
     }
   }"

text \<open>
  The class invariant on the two pointer members and the allocator: a member pointer is
  null or live, and no live address is at or above the next fresh one.
\<close>

definition heap_ok :: "state \<Rightarrow> bool" where
  "heap_ok st \<longleftrightarrow> (\<forall>a. m_encoder st = Some a \<longrightarrow> a \<in> dom (encoders st))
     \<and> (\<forall>a. m_packBuffer st = Some a \<longrightarrow> a \<in> dom (arrays st))
     \<and> (\<forall>a \<in> dom (encoders st) \<union> dom (arrays st). a < next_addr st)"

text \<open>
  The state in which \<open>putArrayfloatV\<close> and \<open>getArrayfloatV\<close> may be called: the encoder
  exists and the pack buffer is a live array of \<open>Stride()\<close> bytes.
\<close>

definition prepared :: "state \<Rightarrow> bool" where
  "prepared st \<longleftrightarrow> (\<exists>e n pb buf. m_encoder st = Some e \<and> encoders st e = Some n
     \<and> m_packBuffer st = Some pb \<and> arrays st pb = Some buf \<and> length buf = Stride st)"

section \<open>Reads and writes that stay inside the arrays\<close>


lemma store_SomeD: "store buf i v = Some buf' \<Longrightarrow> i < length buf \<and> length buf' = length buf"
  by (auto simp: store_def split: if_splits)

lemma assign_byte_SomeD: "assign_byte buf i v = Some buf' \<Longrightarrow> i < length buf \<and> length buf' = length buf"
  by (auto simp: assign_byte_def dest: store_SomeD)

lemma or_byte_SomeD: "or_byte buf i v = Some buf' \<Longrightarrow> i < length buf \<and> length buf' = length buf"
  by (auto simp: or_byte_def bind_eq_Some_conv dest: store_SomeD)

lemma load_SomeD: "load buf i = Some v \<Longrightarrow> i < length buf"
  by (auto simp: load_def split: if_splits)

lemma load_byte_SomeD: "load_byte buf i = Some v \<Longrightarrow> i < length buf"
  by (auto simp: load_byte_def load_def split: if_splits)

lemma or_symbol_SomeD: "or_symbol buf i v = Some buf' \<Longrightarrow> i < length buf \<and> length buf' = length buf"
  by (auto simp: or_symbol_def bind_eq_Some_conv dest: store_SomeD)



section \<open>The six-bit packer\<close>


subsection \<open>What a run of \<open>pack6\<close> writes\<close>


lemma pack6_group_Some:
  assumes "s + 4 \<le> length symbolBuffer" "d + 3 \<le> length dest"
  shows "pack6_group symbolBuffer (dest, d, s) = Some (dest
     [d := p6_b0 (symbolBuffer ! s) (symbolBuffer ! (s+1)),
      d + 1 := p6_b1 (symbolBuffer ! (s+1)) (symbolBuffer ! (s+2)),
      d + 2 := p6_b2 (symbolBuffer ! (s+2)) (symbolBuffer ! (s+3))], d + 3, s + 4)"
  using assms
  by (simp add: pack6_group_def load_def store_def assign_byte_def or_byte_def Let_def numeral_eq_Suc
       p6_b0_def p6_b1_def p6_b2_def)

lemma pack6_loop_spec:
  assumes "s + 4 * n \<le> length symbolBuffer" "d + 3 * n \<le> length dest"
  shows "\<exists>dest'. pack6_loop n symbolBuffer (dest, d, s) = Some (dest', d + 3 * n, s + 4 * n)
     \<and> length dest' = length dest
     \<and> (\<forall>i. i < d \<or> d + 3 * n \<le> i \<longrightarrow> dest' ! i = dest ! i)
     \<and> (\<forall>k<n. dest' ! (d + 3 * k) = p6_b0 (symbolBuffer ! (s + 4 * k)) (symbolBuffer ! (s + 4 * k + 1))
            \<and> dest' ! (d + 3 * k + 1) = p6_b1 (symbolBuffer ! (s + 4 * k + 1)) (symbolBuffer ! (s + 4 * k + 2))
            \<and> dest' ! (d + 3 * k + 2) = p6_b2 (symbolBuffer ! (s + 4 * k + 2)) (symbolBuffer ! (s + 4 * k + 3)))"
  using assms
proof (induction n arbitrary: dest d s)
  case 0
  then show ?case by simp
next
  case (Suc n)
  let ?d1 = "dest[d := p6_b0 (symbolBuffer ! s) (symbolBuffer ! (s+1)),
      d + 1 := p6_b1 (symbolBuffer ! (s+1)) (symbolBuffer ! (s+2)),
      d + 2 := p6_b2 (symbolBuffer ! (s+2)) (symbolBuffer ! (s+3))]"
  from Suc.prems have g: "pack6_group symbolBuffer (dest, d, s) = Some (?d1, d + 3, s + 4)"
    by (intro pack6_group_Some) auto
  from Suc.prems have "s + 4 + 4 * n \<le> length symbolBuffer" "d + 3 + 3 * n \<le> length ?d1"
    by auto
  from Suc.IH [OF this] obtain dest' where
    l: "pack6_loop n symbolBuffer (?d1, d + 3, s + 4) = Some (dest', d + 3 + 3 * n, s + 4 + 4 * n)"
    and len: "length dest' = length ?d1"
    and fr: "\<And>i. i < d + 3 \<or> d + 3 + 3 * n \<le> i \<Longrightarrow> dest' ! i = ?d1 ! i"
    and ct: "\<And>k. k < n \<Longrightarrow> dest' ! (d + 3 + 3 * k) = p6_b0 (symbolBuffer ! (s + 4 + 4 * k)) (symbolBuffer ! (s + 4 + 4 * k + 1))
            \<and> dest' ! (d + 3 + 3 * k + 1) = p6_b1 (symbolBuffer ! (s + 4 + 4 * k + 1)) (symbolBuffer ! (s + 4 + 4 * k + 2))
            \<and> dest' ! (d + 3 + 3 * k + 2) = p6_b2 (symbolBuffer ! (s + 4 + 4 * k + 2)) (symbolBuffer ! (s + 4 + 4 * k + 3))"
    by blast
  have 1: "pack6_loop (Suc n) symbolBuffer (dest, d, s) = Some (dest', d + 3 * Suc n, s + 4 * Suc n)"
    using g l by (simp add: add.assoc add.commute)
  have 2: "length dest' = length dest" using len by simp
  have 3: "\<forall>i. i < d \<or> d + 3 * Suc n \<le> i \<longrightarrow> dest' ! i = dest ! i"
    using fr by auto
  have 4: "dest' ! (d + 3 * k) = p6_b0 (symbolBuffer ! (s + 4 * k)) (symbolBuffer ! (s + 4 * k + 1))
            \<and> dest' ! (d + 3 * k + 1) = p6_b1 (symbolBuffer ! (s + 4 * k + 1)) (symbolBuffer ! (s + 4 * k + 2))
            \<and> dest' ! (d + 3 * k + 2) = p6_b2 (symbolBuffer ! (s + 4 * k + 2)) (symbolBuffer ! (s + 4 * k + 3))"
    if "k < Suc n" for k
  proof (cases k)
    case 0
    with Suc.prems show ?thesis using fr [of d] fr [of "d + 1"] fr [of "d + 2"] by simp
  next
    case (Suc k')
    with that have "k' < n" by simp
    from ct [OF this] show ?thesis using Suc by (simp add: add.assoc add.commute add.left_commute)
  qed
  from 1 2 3 4 show ?case by blast
qed


lemma packed_size_6: "r < 4 \<Longrightarrow> packed_size 6 (4 * l + r) = 3 * l + r"
  by (simp add: packed_size_def)

lemma pack6_spec:
  assumes "symbolCount \<le> length symbolBuffer" "d + packed_size 6 symbolCount \<le> length dest"
  shows "\<exists>dest'. pack6 dest d symbolBuffer symbolCount = Some dest'
     \<and> length dest' = length dest
     \<and> (\<forall>i. i < d \<or> d + packed_size 6 symbolCount \<le> i \<longrightarrow> dest' ! i = dest ! i)
     \<and> (\<forall>k. 4 * k < symbolCount \<longrightarrow> dest' ! (d + 3 * k) =
            (if 4 * k + 1 < symbolCount then p6_b0 (symbolBuffer ! (4 * k)) (symbolBuffer ! (4 * k + 1))
             else ucast (symbolBuffer ! (4 * k))))
     \<and> (\<forall>k. 4 * k + 1 < symbolCount \<longrightarrow> dest' ! (d + 3 * k + 1) =
            (if 4 * k + 2 < symbolCount then p6_b1 (symbolBuffer ! (4 * k + 1)) (symbolBuffer ! (4 * k + 2))
             else p6_t1 (symbolBuffer ! (4 * k + 1))))
     \<and> (\<forall>k. 4 * k + 2 < symbolCount \<longrightarrow> dest' ! (d + 3 * k + 2) =
            (if 4 * k + 3 < symbolCount then p6_b2 (symbolBuffer ! (4 * k + 2)) (symbolBuffer ! (4 * k + 3))
             else p6_t2 (symbolBuffer ! (4 * k + 2))))"
proof -
  define l where "l = symbolCount div 4"
  define r where "r = symbolCount mod 4"
  have sc: "symbolCount = 4 * l + r" and r: "r < 4" by (simp_all add: l_def r_def)
  have dv: "symbolCount div 4 = l" by (simp add: l_def)
  have ps: "packed_size 6 symbolCount = 3 * l + r"
    by (subst sc) (rule packed_size_6 [OF r])
  from assms have "0 + 4 * l \<le> length symbolBuffer" "d + 3 * l \<le> length dest"
    unfolding ps by (simp_all add: sc)
  from pack6_loop_spec [OF this] obtain dest1 where
    l: "pack6_loop l symbolBuffer (dest, d, 0) = Some (dest1, d + 3 * l, 4 * l)"
    and len: "length dest1 = length dest"
    and fr: "\<And>i. i < d \<or> d + 3 * l \<le> i \<Longrightarrow> dest1 ! i = dest ! i"
    and ct: "\<And>k. k < l \<Longrightarrow> dest1 ! (d + 3 * k) = p6_b0 (symbolBuffer ! (4 * k)) (symbolBuffer ! (4 * k + 1))
            \<and> dest1 ! (d + 3 * k + 1) = p6_b1 (symbolBuffer ! (4 * k + 1)) (symbolBuffer ! (4 * k + 2))
            \<and> dest1 ! (d + 3 * k + 2) = p6_b2 (symbolBuffer ! (4 * k + 2)) (symbolBuffer ! (4 * k + 3))"
    by auto
  define a where "a = symbolBuffer ! (4 * l)"
  define b where "b = symbolBuffer ! (4 * l + 1)"
  define c where "c = symbolBuffer ! (4 * l + 2)"
  define dest' where "dest' =
    (if r = 0 then dest1
     else if r = 1 then dest1[d + 3 * l := ucast a]
     else if r = 2 then dest1[d + 3 * l := p6_b0 a b, d + 3 * l + 1 := p6_t1 b]
     else dest1[d + 3 * l := p6_b0 a b, d + 3 * l + 1 := p6_b1 b c, d + 3 * l + 2 := p6_t2 c])"
  have b1: "d + 3 * l < length dest" if "r \<noteq> 0" using assms that by (simp add: ps)
  have b2: "Suc (d + 3 * l) < length dest" if "r \<noteq> 0" "r \<noteq> 1" using assms that by (simp add: ps)
  have b3: "Suc (Suc (d + 3 * l)) < length dest" if "r = 3" using assms that by (simp add: ps)
  have s1: "4 * l < length symbolBuffer" if "r \<noteq> 0" using assms that by (simp add: sc)
  have s2: "Suc (4 * l) < length symbolBuffer" if "r \<noteq> 0" "r \<noteq> 1" using assms that by (simp add: sc)
  have s3: "Suc (Suc (4 * l)) < length symbolBuffer" if "r = 3" using assms that by (simp add: sc)
  have pos: "l * 4 < symbolCount \<longleftrightarrow> r \<noteq> 0" "Suc (l * 4) < symbolCount \<longleftrightarrow> r \<noteq> 0 \<and> r \<noteq> 1"
    "Suc (Suc (l * 4)) < symbolCount \<longleftrightarrow> r = 3"
    using r by (auto simp: sc)
  consider "r = 0" | "r = 1" | "r = 2" | "r = 3" using r by linarith
  then have 1: "pack6 dest d symbolBuffer symbolCount = Some dest'"
  proof cases
    case 1
    then show ?thesis unfolding pack6_def dv Let_def l by (simp add: pos dest'_def)
  next
    case 2
    then show ?thesis unfolding pack6_def dv Let_def l using b1 s1
      by (simp add: pos dest'_def load_def store_def assign_byte_def len a_def)
  next
    case 3
    then show ?thesis unfolding pack6_def dv Let_def l using b1 s1 b2 s2
      by (simp add: pos dest'_def load_def store_def assign_byte_def or_byte_def len a_def b_def p6_b0_def p6_t1_def)
  next
    case 4
    then show ?thesis unfolding pack6_def dv Let_def l using b1 s1 b2 s2 b3 s3
      by (simp add: pos dest'_def load_def store_def assign_byte_def or_byte_def len a_def b_def c_def
          p6_b0_def p6_b1_def p6_t2_def)
  qed
  have 2: "length dest' = length dest" by (simp add: dest'_def len)
  have 3: "\<forall>i. i < d \<or> d + packed_size 6 symbolCount \<le> i \<longrightarrow> dest' ! i = dest ! i"
    using fr r by (auto simp: dest'_def ps)
  have klt: "dest' ! (d + 3 * k + m) = dest1 ! (d + 3 * k + m)" if "k < l" "m < 3" for k m
    using that by (simp add: dest'_def)
  have 4: "dest' ! (d + 3 * k) =
            (if 4 * k + 1 < symbolCount then p6_b0 (symbolBuffer ! (4 * k)) (symbolBuffer ! (4 * k + 1))
             else ucast (symbolBuffer ! (4 * k)))" if "4 * k < symbolCount" for k
  proof (cases "k < l")
    case True
    then show ?thesis using klt [of k 0] ct [of k] by (simp add: sc)
  next
    case False
    with that r have "k = l" "r \<noteq> 0" by (auto simp: sc)
    then show ?thesis using r b1 b2 b3 len by (auto simp: dest'_def sc a_def b_def)
  qed
  have 5: "dest' ! (d + 3 * k + 1) =
            (if 4 * k + 2 < symbolCount then p6_b1 (symbolBuffer ! (4 * k + 1)) (symbolBuffer ! (4 * k + 2))
             else p6_t1 (symbolBuffer ! (4 * k + 1)))" if "4 * k + 1 < symbolCount" for k
  proof (cases "k < l")
    case True
    then show ?thesis using klt [of k 1] ct [of k] by (simp add: sc)
  next
    case False
    with that r have "k = l" "r \<noteq> 0" "r \<noteq> 1" by (auto simp: sc)
    then show ?thesis using r b1 b2 b3 len by (auto simp: dest'_def sc b_def c_def)
  qed
  have 6: "dest' ! (d + 3 * k + 2) =
            (if 4 * k + 3 < symbolCount then p6_b2 (symbolBuffer ! (4 * k + 2)) (symbolBuffer ! (4 * k + 3))
             else p6_t2 (symbolBuffer ! (4 * k + 2)))" if "4 * k + 2 < symbolCount" for k
  proof (cases "k < l")
    case True
    then show ?thesis using klt [of k 2] ct [of k] by (simp add: sc)
  next
    case False
    with that r have "k = l" "r = 3" by (auto simp: sc)
    then show ?thesis using r b1 b2 b3 len by (auto simp: dest'_def sc c_def)
  qed
  from 1 2 3 4 5 6 show ?thesis by blast
qed


lemma pack6_group_SomeD:
  assumes "pack6_group symbolBuffer (dest, d, s) = Some st'"
  shows "d + 3 \<le> length dest \<and> s + 4 \<le> length symbolBuffer"
  using assms unfolding pack6_group_def Let_def
  by (auto simp: bind_eq_Some_conv dest!: assign_byte_SomeD or_byte_SomeD load_SomeD)


lemma pack6_loop_SomeD:
  assumes "pack6_loop n symbolBuffer (dest, d, s) = Some st'"
  shows "\<exists>dest'. st' = (dest', d + 3 * n, s + 4 * n) \<and> length dest' = length dest
     \<and> (0 < n \<longrightarrow> d + 3 * n \<le> length dest \<and> s + 4 * n \<le> length symbolBuffer)"
  using assms
proof (induction n arbitrary: dest d s)
  case 0
  then show ?case by auto
next
  case (Suc n)
  from Suc.prems obtain st1 where g: "pack6_group symbolBuffer (dest, d, s) = Some st1"
    and l: "pack6_loop n symbolBuffer st1 = Some st'"
    by (auto simp: bind_eq_Some_conv)
  from pack6_group_SomeD [OF g] have b: "d + 3 \<le> length dest" "s + 4 \<le> length symbolBuffer" by auto
  from pack6_group_Some [OF b(2) b(1)] g obtain dest1 where
    st1: "st1 = (dest1, d + 3, s + 4)" and len1: "length dest1 = length dest" by auto
  from Suc.IH [OF l [unfolded st1]] obtain dest' where
    "st' = (dest', d + 3 + 3 * n, s + 4 + 4 * n)" "length dest' = length dest1"
    "0 < n \<longrightarrow> d + 3 + 3 * n \<le> length dest1 \<and> s + 4 + 4 * n \<le> length symbolBuffer"
    by auto
  with b len1 show ?case by (cases "n = 0") auto
qed

lemma pack6_SomeD:
  assumes "pack6 dest d symbolBuffer symbolCount = Some dest'" "0 < symbolCount"
  shows "symbolCount \<le> length symbolBuffer \<and> d + packed_size 6 symbolCount \<le> length dest"
proof -
  define l where "l = symbolCount div 4"
  define r where "r = symbolCount mod 4"
  have sc: "symbolCount = 4 * l + r" and r: "r < 4" by (simp_all add: l_def r_def)
  have dv: "symbolCount div 4 = l" by (simp add: l_def)
  have ps: "packed_size 6 symbolCount = 3 * l + r"
    by (subst sc) (rule packed_size_6 [OF r])
  from assms(1) obtain st1 where lp: "pack6_loop l symbolBuffer (dest, d, 0) = Some st1"
    unfolding pack6_def dv Let_def by (auto simp: bind_eq_Some_conv)
  from pack6_loop_SomeD [OF lp] obtain dest1 where
    st1: "st1 = (dest1, d + 3 * l, 4 * l)" and len1: "length dest1 = length dest"
    and bl: "0 < l \<Longrightarrow> d + 3 * l \<le> length dest \<and> 4 * l \<le> length symbolBuffer"
    by auto
  have pos: "l * 4 < symbolCount \<longleftrightarrow> r \<noteq> 0" "Suc (l * 4) < symbolCount \<longleftrightarrow> r \<noteq> 0 \<and> r \<noteq> 1"
    "Suc (Suc (l * 4)) < symbolCount \<longleftrightarrow> r = 3"
    using r by (auto simp: sc)
  have tl: "(case st1 of (dest, d, s) \<Rightarrow>
       if l * 4 < symbolCount then do {
       a \<leftarrow> load symbolBuffer s;
       dest \<leftarrow> assign_byte dest d a;
       if l * 4 + 1 < symbolCount then do {
         b \<leftarrow> load symbolBuffer (s + 1);
         dest \<leftarrow> or_byte dest d (push_bit 6 (b AND 3));
         b \<leftarrow> load symbolBuffer (s + 1);
         dest \<leftarrow> assign_byte dest (d + 1) (drop_bit 2 (b AND 60));
         if l * 4 + 1 + 1 < symbolCount then do {
           c \<leftarrow> load symbolBuffer (s + 1 + 1);
           dest \<leftarrow> or_byte dest (d + 1) (push_bit 4 (c AND 15));
           c \<leftarrow> load symbolBuffer (s + 1 + 1);
           assign_byte dest (d + 1 + 1) (drop_bit 4 (c AND 48))
         } else Some dest
       } else Some dest
     } else Some dest) = Some dest'"
    using assms(1) lp unfolding pack6_def dv Let_def by simp
  consider "r = 0" | "r = 1" | "r = 2" | "r = 3" using r by linarith
  then have "4 * l + r \<le> length symbolBuffer \<and> d + (3 * l + r) \<le> length dest"
  proof cases
    case 1
    with assms(2) have "0 < l" by (simp add: sc)
    from bl [OF this] 1 show ?thesis by simp
  next
    case 2
    with tl have "4 * l < length symbolBuffer \<and> d + 3 * l < length dest"
      unfolding st1 by (auto simp: pos bind_eq_Some_conv len1 dest!: assign_byte_SomeD or_byte_SomeD load_SomeD)
    with 2 show ?thesis by simp
  next
    case 3
    with tl have "4 * l + 1 < length symbolBuffer \<and> d + 3 * l + 1 < length dest"
      unfolding st1 by (auto simp: pos bind_eq_Some_conv len1 dest!: assign_byte_SomeD or_byte_SomeD load_SomeD)
    with 3 show ?thesis by simp
  next
    case 4
    with tl have "4 * l + 2 < length symbolBuffer \<and> d + 3 * l + 2 < length dest"
      unfolding st1 by (auto simp: pos bind_eq_Some_conv len1 dest!: assign_byte_SomeD or_byte_SomeD load_SomeD)
    with 4 show ?thesis by simp
  qed
  then show ?thesis unfolding ps by (simp add: sc)
qed


subsection \<open>What a run of \<open>unpack6\<close> writes\<close>


lemma unpack6_group_Some:
  assumes "s + 4 \<le> length symbolBuffer" "p + 3 \<le> length packedBuffer"
  shows "unpack6_group packedBuffer (symbolBuffer, s, p) = Some (symbolBuffer
     [s := u6_a (packedBuffer ! p),
      s + 1 := u6_b (packedBuffer ! p) (packedBuffer ! (p + 1)),
      s + 2 := u6_c (packedBuffer ! (p + 1)) (packedBuffer ! (p + 2)),
      s + 3 := u6_d (packedBuffer ! (p + 2))], s + 4, p + 3)"
  using assms
  by (simp add: unpack6_group_def load_def store_def load_byte_def or_symbol_def Let_def numeral_eq_Suc
       u6_a_def u6_b_def u6_c_def u6_d_def)

lemma unpack6_loop_spec:
  assumes "s + 4 * n \<le> length symbolBuffer" "p + 3 * n \<le> length packedBuffer"
  shows "\<exists>out. unpack6_loop n packedBuffer (symbolBuffer, s, p) = Some (out, s + 4 * n, p + 3 * n)
     \<and> length out = length symbolBuffer
     \<and> (\<forall>i. i < s \<or> s + 4 * n \<le> i \<longrightarrow> out ! i = symbolBuffer ! i)
     \<and> (\<forall>k<n. out ! (s + 4 * k) = u6_a (packedBuffer ! (p + 3 * k))
            \<and> out ! (s + 4 * k + 1) = u6_b (packedBuffer ! (p + 3 * k)) (packedBuffer ! (p + 3 * k + 1))
            \<and> out ! (s + 4 * k + 2) = u6_c (packedBuffer ! (p + 3 * k + 1)) (packedBuffer ! (p + 3 * k + 2))
            \<and> out ! (s + 4 * k + 3) = u6_d (packedBuffer ! (p + 3 * k + 2)))"
  using assms
proof (induction n arbitrary: symbolBuffer s p)
  case 0
  then show ?case by simp
next
  case (Suc n)
  let ?o1 = "symbolBuffer
     [s := u6_a (packedBuffer ! p),
      s + 1 := u6_b (packedBuffer ! p) (packedBuffer ! (p + 1)),
      s + 2 := u6_c (packedBuffer ! (p + 1)) (packedBuffer ! (p + 2)),
      s + 3 := u6_d (packedBuffer ! (p + 2))]"
  from Suc.prems have g: "unpack6_group packedBuffer (symbolBuffer, s, p) = Some (?o1, s + 4, p + 3)"
    by (intro unpack6_group_Some) auto
  from Suc.prems have "s + 4 + 4 * n \<le> length ?o1" "p + 3 + 3 * n \<le> length packedBuffer"
    by auto
  from Suc.IH [OF this] obtain out where
    l: "unpack6_loop n packedBuffer (?o1, s + 4, p + 3) = Some (out, s + 4 + 4 * n, p + 3 + 3 * n)"
    and len: "length out = length ?o1"
    and fr: "\<And>i. i < s + 4 \<or> s + 4 + 4 * n \<le> i \<Longrightarrow> out ! i = ?o1 ! i"
    and ct: "\<And>k. k < n \<Longrightarrow> out ! (s + 4 + 4 * k) = u6_a (packedBuffer ! (p + 3 + 3 * k))
            \<and> out ! (s + 4 + 4 * k + 1) = u6_b (packedBuffer ! (p + 3 + 3 * k)) (packedBuffer ! (p + 3 + 3 * k + 1))
            \<and> out ! (s + 4 + 4 * k + 2) = u6_c (packedBuffer ! (p + 3 + 3 * k + 1)) (packedBuffer ! (p + 3 + 3 * k + 2))
            \<and> out ! (s + 4 + 4 * k + 3) = u6_d (packedBuffer ! (p + 3 + 3 * k + 2))"
    by blast
  have 1: "unpack6_loop (Suc n) packedBuffer (symbolBuffer, s, p) = Some (out, s + 4 * Suc n, p + 3 * Suc n)"
    using g l by (simp add: add.assoc add.commute)
  have 2: "length out = length symbolBuffer" using len by simp
  have 3: "\<forall>i. i < s \<or> s + 4 * Suc n \<le> i \<longrightarrow> out ! i = symbolBuffer ! i"
    using fr by auto
  have 4: "out ! (s + 4 * k) = u6_a (packedBuffer ! (p + 3 * k))
            \<and> out ! (s + 4 * k + 1) = u6_b (packedBuffer ! (p + 3 * k)) (packedBuffer ! (p + 3 * k + 1))
            \<and> out ! (s + 4 * k + 2) = u6_c (packedBuffer ! (p + 3 * k + 1)) (packedBuffer ! (p + 3 * k + 2))
            \<and> out ! (s + 4 * k + 3) = u6_d (packedBuffer ! (p + 3 * k + 2))"
    if "k < Suc n" for k
  proof (cases k)
    case 0
    with Suc.prems show ?thesis using fr [of s] fr [of "s + 1"] fr [of "s + 2"] fr [of "s + 3"] by simp
  next
    case (Suc k')
    with that have "k' < n" by simp
    from ct [OF this] show ?thesis using Suc by (simp add: add.assoc add.commute add.left_commute)
  qed
  from 1 2 3 4 show ?case by blast
qed

lemma unpack6_spec:
  assumes "symbolCount \<le> length symbolBuffer" "p + packed_size 6 symbolCount \<le> length packedBuffer"
  shows "\<exists>out. unpack6 symbolBuffer packedBuffer p symbolCount = Some out
     \<and> length out = length symbolBuffer
     \<and> (\<forall>i. symbolCount \<le> i \<longrightarrow> out ! i = symbolBuffer ! i)
     \<and> (\<forall>k. 4 * k < symbolCount \<longrightarrow> out ! (4 * k) = u6_a (packedBuffer ! (p + 3 * k)))
     \<and> (\<forall>k. 4 * k + 1 < symbolCount \<longrightarrow>
            out ! (4 * k + 1) = u6_b (packedBuffer ! (p + 3 * k)) (packedBuffer ! (p + 3 * k + 1)))
     \<and> (\<forall>k. 4 * k + 2 < symbolCount \<longrightarrow>
            out ! (4 * k + 2) = u6_c (packedBuffer ! (p + 3 * k + 1)) (packedBuffer ! (p + 3 * k + 2)))
     \<and> (\<forall>k. 4 * k + 3 < symbolCount \<longrightarrow> out ! (4 * k + 3) = u6_d (packedBuffer ! (p + 3 * k + 2)))"
proof -
  define l where "l = symbolCount div 4"
  define r where "r = symbolCount mod 4"
  have sc: "symbolCount = 4 * l + r" and r: "r < 4" by (simp_all add: l_def r_def)
  have dv: "symbolCount div 4 = l" by (simp add: l_def)
  have ps: "packed_size 6 symbolCount = 3 * l + r"
    by (subst sc) (rule packed_size_6 [OF r])
  from assms have "0 + 4 * l \<le> length symbolBuffer" "p + 3 * l \<le> length packedBuffer"
    unfolding ps by (simp_all add: sc)
  from unpack6_loop_spec [OF this] obtain o1 where
    l: "unpack6_loop l packedBuffer (symbolBuffer, 0, p) = Some (o1, 4 * l, p + 3 * l)"
    and len: "length o1 = length symbolBuffer"
    and fr: "\<And>i. 4 * l \<le> i \<Longrightarrow> o1 ! i = symbolBuffer ! i"
    and ct: "\<And>k. k < l \<Longrightarrow> o1 ! (4 * k) = u6_a (packedBuffer ! (p + 3 * k))
            \<and> o1 ! (4 * k + 1) = u6_b (packedBuffer ! (p + 3 * k)) (packedBuffer ! (p + 3 * k + 1))
            \<and> o1 ! (4 * k + 2) = u6_c (packedBuffer ! (p + 3 * k + 1)) (packedBuffer ! (p + 3 * k + 2))
            \<and> o1 ! (4 * k + 3) = u6_d (packedBuffer ! (p + 3 * k + 2))"
    by auto
  define x where "x = packedBuffer ! (p + 3 * l)"
  define y where "y = packedBuffer ! (p + 3 * l + 1)"
  define z where "z = packedBuffer ! (p + 3 * l + 2)"
  define out where "out =
    (if r = 0 then o1
     else if r = 1 then o1[4 * l := u6_a x]
     else if r = 2 then o1[4 * l := u6_a x, 4 * l + 1 := u6_b x y]
     else o1[4 * l := u6_a x, 4 * l + 1 := u6_b x y, 4 * l + 2 := u6_c y z])"
  have b1: "p + 3 * l < length packedBuffer" if "r \<noteq> 0" using assms that by (simp add: ps)
  have b2: "Suc (p + 3 * l) < length packedBuffer" if "r \<noteq> 0" "r \<noteq> 1" using assms that by (simp add: ps)
  have b3: "Suc (Suc (p + 3 * l)) < length packedBuffer" if "r = 3" using assms that by (simp add: ps)
  have s1: "4 * l < length symbolBuffer" if "r \<noteq> 0" using assms that by (simp add: sc)
  have s2: "Suc (4 * l) < length symbolBuffer" if "r \<noteq> 0" "r \<noteq> 1" using assms that by (simp add: sc)
  have s3: "Suc (Suc (4 * l)) < length symbolBuffer" if "r = 3" using assms that by (simp add: sc)
  have pos: "l * 4 < symbolCount \<longleftrightarrow> r \<noteq> 0" "Suc (l * 4) < symbolCount \<longleftrightarrow> r \<noteq> 0 \<and> r \<noteq> 1"
    "Suc (Suc (l * 4)) < symbolCount \<longleftrightarrow> r = 3"
    using r by (auto simp: sc)
  consider "r = 0" | "r = 1" | "r = 2" | "r = 3" using r by linarith
  then have 1: "unpack6 symbolBuffer packedBuffer p symbolCount = Some out"
  proof cases
    case 1
    then show ?thesis unfolding unpack6_def dv Let_def l by (simp add: pos out_def)
  next
    case 2
    then show ?thesis unfolding unpack6_def dv Let_def l using b1 s1
      by (simp add: pos out_def load_def store_def load_byte_def len x_def u6_a_def)
  next
    case 3
    then show ?thesis unfolding unpack6_def dv Let_def l using b1 s1 b2 s2
      by (simp add: pos out_def load_def store_def load_byte_def or_symbol_def len x_def y_def
          u6_a_def u6_b_def)
  next
    case 4
    then show ?thesis unfolding unpack6_def dv Let_def l using b1 s1 b2 s2 b3 s3
      by (simp add: pos out_def load_def store_def load_byte_def or_symbol_def len x_def y_def z_def
          u6_a_def u6_b_def u6_c_def)
  qed
  have 2: "length out = length symbolBuffer" by (simp add: out_def len)
  have 3: "\<forall>i. symbolCount \<le> i \<longrightarrow> out ! i = symbolBuffer ! i"
    using fr r by (auto simp: out_def sc)
  have klt: "out ! (4 * k + m) = o1 ! (4 * k + m)" if "k < l" "m < 4" for k m
    using that by (simp add: out_def)
  have 4: "out ! (4 * k) = u6_a (packedBuffer ! (p + 3 * k))" if "4 * k < symbolCount" for k
  proof (cases "k < l")
    case True
    then show ?thesis using klt [of k 0] ct [of k] by simp
  next
    case False
    with that r have "k = l" "r \<noteq> 0" by (auto simp: sc)
    then show ?thesis using r s1 s2 s3 len by (auto simp: out_def x_def)
  qed
  have 5: "out ! (4 * k + 1) = u6_b (packedBuffer ! (p + 3 * k)) (packedBuffer ! (p + 3 * k + 1))"
    if "4 * k + 1 < symbolCount" for k
  proof (cases "k < l")
    case True
    then show ?thesis using klt [of k 1] ct [of k] by simp
  next
    case False
    with that r have "k = l" "r \<noteq> 0" "r \<noteq> 1" by (auto simp: sc)
    then show ?thesis using r s1 s2 s3 len by (auto simp: out_def x_def y_def)
  qed
  have 6: "out ! (4 * k + 2) = u6_c (packedBuffer ! (p + 3 * k + 1)) (packedBuffer ! (p + 3 * k + 2))"
    if "4 * k + 2 < symbolCount" for k
  proof (cases "k < l")
    case True
    then show ?thesis using klt [of k 2] ct [of k] by simp
  next
    case False
    with that r have "k = l" "r = 3" by (auto simp: sc)
    then show ?thesis using r s1 s2 s3 len by (auto simp: out_def y_def z_def)
  qed
  have 7: "out ! (4 * k + 3) = u6_d (packedBuffer ! (p + 3 * k + 2))"
    if "4 * k + 3 < symbolCount" for k
  proof -
    from that r have "k < l" by (auto simp: sc)
    then show ?thesis using klt [of k 3] ct [of k] by simp
  qed
  from 1 2 3 4 5 6 7 show ?thesis by blast
qed


lemma unpack6_group_SomeD:
  assumes "unpack6_group packedBuffer (symbolBuffer, s, p) = Some st'"
  shows "s + 4 \<le> length symbolBuffer \<and> p + 3 \<le> length packedBuffer"
  using assms unfolding unpack6_group_def Let_def
  by (auto simp: bind_eq_Some_conv dest!: store_SomeD or_symbol_SomeD load_byte_SomeD)

lemma unpack6_loop_SomeD:
  assumes "unpack6_loop n packedBuffer (symbolBuffer, s, p) = Some st'"
  shows "\<exists>out. st' = (out, s + 4 * n, p + 3 * n) \<and> length out = length symbolBuffer
     \<and> (0 < n \<longrightarrow> s + 4 * n \<le> length symbolBuffer \<and> p + 3 * n \<le> length packedBuffer)"
  using assms
proof (induction n arbitrary: symbolBuffer s p)
  case 0
  then show ?case by auto
next
  case (Suc n)
  from Suc.prems obtain st1 where g: "unpack6_group packedBuffer (symbolBuffer, s, p) = Some st1"
    and l: "unpack6_loop n packedBuffer st1 = Some st'"
    by (auto simp: bind_eq_Some_conv)
  from unpack6_group_SomeD [OF g] have b: "s + 4 \<le> length symbolBuffer" "p + 3 \<le> length packedBuffer" by auto
  from unpack6_group_Some [OF b] g obtain o1 where
    st1: "st1 = (o1, s + 4, p + 3)" and len1: "length o1 = length symbolBuffer" by auto
  from Suc.IH [OF l [unfolded st1]] obtain out where
    "st' = (out, s + 4 + 4 * n, p + 3 + 3 * n)" "length out = length o1"
    "0 < n \<longrightarrow> s + 4 + 4 * n \<le> length o1 \<and> p + 3 + 3 * n \<le> length packedBuffer"
    by auto
  with b len1 show ?case by (cases "n = 0") auto
qed

lemma unpack6_SomeD:
  assumes "unpack6 symbolBuffer packedBuffer p symbolCount = Some out" "0 < symbolCount"
  shows "symbolCount \<le> length symbolBuffer \<and> p + packed_size 6 symbolCount \<le> length packedBuffer"
proof -
  define l where "l = symbolCount div 4"
  define r where "r = symbolCount mod 4"
  have sc: "symbolCount = 4 * l + r" and r: "r < 4" by (simp_all add: l_def r_def)
  have dv: "symbolCount div 4 = l" by (simp add: l_def)
  have ps: "packed_size 6 symbolCount = 3 * l + r"
    by (subst sc) (rule packed_size_6 [OF r])
  from assms(1) obtain st1 where lp: "unpack6_loop l packedBuffer (symbolBuffer, 0, p) = Some st1"
    unfolding unpack6_def dv Let_def by (auto simp: bind_eq_Some_conv)
  from unpack6_loop_SomeD [OF lp] obtain o1 where
    st1: "st1 = (o1, 4 * l, p + 3 * l)" and len1: "length o1 = length symbolBuffer"
    and bl: "0 < l \<Longrightarrow> 4 * l \<le> length symbolBuffer \<and> p + 3 * l \<le> length packedBuffer"
    by auto
  have pos: "l * 4 < symbolCount \<longleftrightarrow> r \<noteq> 0" "Suc (l * 4) < symbolCount \<longleftrightarrow> r \<noteq> 0 \<and> r \<noteq> 1"
    "Suc (Suc (l * 4)) < symbolCount \<longleftrightarrow> r = 3"
    using r by (auto simp: sc)
  have tl: "(case st1 of (symbolBuffer, s, p) \<Rightarrow>
     if l * 4 < symbolCount then do {
       x \<leftarrow> load_byte packedBuffer p;
       symbolBuffer \<leftarrow> store symbolBuffer s (x AND 63);
       if l * 4 + 1 < symbolCount then do {
         x \<leftarrow> load_byte packedBuffer p;
         symbolBuffer \<leftarrow> store symbolBuffer (s + 1) (drop_bit 6 (x AND 192));
         y \<leftarrow> load_byte packedBuffer (p + 1);
         symbolBuffer \<leftarrow> or_symbol symbolBuffer (s + 1) (push_bit 2 (y AND 15));
         if l * 4 + 1 + 1 < symbolCount then do {
           y \<leftarrow> load_byte packedBuffer (p + 1);
           symbolBuffer \<leftarrow> store symbolBuffer (s + 1 + 1) (drop_bit 4 (y AND 240));
           z \<leftarrow> load_byte packedBuffer (p + 1 + 1);
           or_symbol symbolBuffer (s + 1 + 1) (push_bit 4 (z AND 3))
         } else Some symbolBuffer
       } else Some symbolBuffer
     } else Some symbolBuffer) = Some out"
    using assms(1) lp unfolding unpack6_def dv Let_def by simp
  consider "r = 0" | "r = 1" | "r = 2" | "r = 3" using r by linarith
  then have "4 * l + r \<le> length symbolBuffer \<and> p + (3 * l + r) \<le> length packedBuffer"
  proof cases
    case 1
    with assms(2) have "0 < l" by (simp add: sc)
    from bl [OF this] 1 show ?thesis by simp
  next
    case 2
    with tl have "4 * l < length symbolBuffer \<and> p + 3 * l < length packedBuffer"
      unfolding st1 by (auto simp: pos bind_eq_Some_conv len1 dest!: store_SomeD or_symbol_SomeD load_byte_SomeD)
    with 2 show ?thesis by simp
  next
    case 3
    with tl have "4 * l + 1 < length symbolBuffer \<and> p + 3 * l + 1 < length packedBuffer"
      unfolding st1 by (auto simp: pos bind_eq_Some_conv len1 dest!: store_SomeD or_symbol_SomeD load_byte_SomeD)
    with 3 show ?thesis by simp
  next
    case 4
    with tl have "4 * l + 2 < length symbolBuffer \<and> p + 3 * l + 2 < length packedBuffer"
      unfolding st1 by (auto simp: pos bind_eq_Some_conv len1 dest!: store_SomeD or_symbol_SomeD load_byte_SomeD)
    with 4 show ?thesis by simp
  qed
  then show ?thesis unfolding ps by (simp add: sc)
qed


section \<open>The four-bit packer\<close>


lemma pack4_group_Some:
  assumes "s + 2 \<le> length symbolBuffer" "d + 1 \<le> length dest"
  shows "pack4_group symbolBuffer (dest, d, s) =
     Some (dest[d := p4_b (symbolBuffer ! s) (symbolBuffer ! (s + 1))], d + 1, s + 2)"
  using assms
  by (simp add: pack4_group_def load_def store_def assign_byte_def or_byte_def Let_def numeral_eq_Suc
       p4_b_def)

lemma pack4_group_SomeD:
  assumes "pack4_group symbolBuffer (dest, d, s) = Some st'"
  shows "d + 1 \<le> length dest \<and> s + 2 \<le> length symbolBuffer"
  using assms unfolding pack4_group_def Let_def
  by (auto simp: bind_eq_Some_conv dest!: assign_byte_SomeD or_byte_SomeD load_SomeD)

lemma pack4_loop_spec:
  assumes "s + 2 * n \<le> length symbolBuffer" "d + n \<le> length dest"
  shows "\<exists>dest'. pack4_loop n symbolBuffer (dest, d, s) = Some (dest', d + n, s + 2 * n)
     \<and> length dest' = length dest
     \<and> (\<forall>i. i < d \<or> d + n \<le> i \<longrightarrow> dest' ! i = dest ! i)
     \<and> (\<forall>k<n. dest' ! (d + k) = p4_b (symbolBuffer ! (s + 2 * k)) (symbolBuffer ! (s + 2 * k + 1)))"
  using assms
proof (induction n arbitrary: dest d s)
  case 0
  then show ?case by simp
next
  case (Suc n)
  let ?d1 = "dest[d := p4_b (symbolBuffer ! s) (symbolBuffer ! (s + 1))]"
  from Suc.prems have g: "pack4_group symbolBuffer (dest, d, s) = Some (?d1, d + 1, s + 2)"
    by (intro pack4_group_Some) auto
  from Suc.prems have "s + 2 + 2 * n \<le> length symbolBuffer" "d + 1 + n \<le> length ?d1"
    by auto
  from Suc.IH [OF this] obtain dest' where
    l: "pack4_loop n symbolBuffer (?d1, d + 1, s + 2) = Some (dest', d + 1 + n, s + 2 + 2 * n)"
    and len: "length dest' = length ?d1"
    and fr: "\<And>i. i < d + 1 \<or> d + 1 + n \<le> i \<Longrightarrow> dest' ! i = ?d1 ! i"
    and ct: "\<And>k. k < n \<Longrightarrow>
       dest' ! (d + 1 + k) = p4_b (symbolBuffer ! (s + 2 + 2 * k)) (symbolBuffer ! (s + 2 + 2 * k + 1))"
    by blast
  have 1: "pack4_loop (Suc n) symbolBuffer (dest, d, s) = Some (dest', d + Suc n, s + 2 * Suc n)"
    using g l by (simp add: add.assoc add.commute)
  have 2: "length dest' = length dest" using len by simp
  have 3: "\<forall>i. i < d \<or> d + Suc n \<le> i \<longrightarrow> dest' ! i = dest ! i"
    using fr by auto
  have 4: "dest' ! (d + k) = p4_b (symbolBuffer ! (s + 2 * k)) (symbolBuffer ! (s + 2 * k + 1))"
    if "k < Suc n" for k
  proof (cases k)
    case 0
    with Suc.prems show ?thesis using fr [of d] by simp
  next
    case (Suc k')
    with that have "k' < n" by simp
    from ct [OF this] show ?thesis using Suc by (simp add: add.assoc add.commute add.left_commute)
  qed
  from 1 2 3 4 show ?case by blast
qed

lemma pack4_loop_SomeD:
  assumes "pack4_loop n symbolBuffer (dest, d, s) = Some st'"
  shows "\<exists>dest'. st' = (dest', d + n, s + 2 * n) \<and> length dest' = length dest
     \<and> (0 < n \<longrightarrow> d + n \<le> length dest \<and> s + 2 * n \<le> length symbolBuffer)"
  using assms
proof (induction n arbitrary: dest d s)
  case 0
  then show ?case by auto
next
  case (Suc n)
  from Suc.prems obtain st1 where g: "pack4_group symbolBuffer (dest, d, s) = Some st1"
    and l: "pack4_loop n symbolBuffer st1 = Some st'"
    by (auto simp: bind_eq_Some_conv)
  from pack4_group_SomeD [OF g] have b: "d + 1 \<le> length dest" "s + 2 \<le> length symbolBuffer" by auto
  from pack4_group_Some [OF b(2) b(1)] g obtain dest1 where
    st1: "st1 = (dest1, d + 1, s + 2)" and len1: "length dest1 = length dest" by auto
  from Suc.IH [OF l [unfolded st1]] obtain dest' where
    "st' = (dest', d + 1 + n, s + 2 + 2 * n)" "length dest' = length dest1"
    "0 < n \<longrightarrow> d + 1 + n \<le> length dest1 \<and> s + 2 + 2 * n \<le> length symbolBuffer"
    by auto
  with b len1 show ?case by (cases "n = 0") auto
qed

lemma packed_size_4: "r < 2 \<Longrightarrow> packed_size 4 (2 * l + r) = l + r"
  by (simp add: packed_size_def)

lemma pack4_spec:
  assumes "symbolCount \<le> length symbolBuffer" "d + packed_size 4 symbolCount \<le> length dest"
  shows "\<exists>dest'. pack4 dest d symbolBuffer symbolCount = Some dest'
     \<and> length dest' = length dest
     \<and> (\<forall>i. i < d \<or> d + packed_size 4 symbolCount \<le> i \<longrightarrow> dest' ! i = dest ! i)
     \<and> (\<forall>k. 2 * k < symbolCount \<longrightarrow> dest' ! (d + k) =
            (if 2 * k + 1 < symbolCount then p4_b (symbolBuffer ! (2 * k)) (symbolBuffer ! (2 * k + 1))
             else ucast (symbolBuffer ! (2 * k))))"
proof -
  define l where "l = symbolCount div 2"
  define r where "r = symbolCount mod 2"
  have sc: "symbolCount = 2 * l + r" and r: "r < 2" by (simp_all add: l_def r_def)
  have dv: "symbolCount div 2 = l" by (simp add: l_def)
  have ps: "packed_size 4 symbolCount = l + r"
    by (subst sc) (rule packed_size_4 [OF r])
  from assms have "0 + 2 * l \<le> length symbolBuffer" "d + l \<le> length dest"
    unfolding ps by (simp_all add: sc)
  from pack4_loop_spec [OF this] obtain dest1 where
    l: "pack4_loop l symbolBuffer (dest, d, 0) = Some (dest1, d + l, 2 * l)"
    and len: "length dest1 = length dest"
    and fr: "\<And>i. i < d \<or> d + l \<le> i \<Longrightarrow> dest1 ! i = dest ! i"
    and ct: "\<And>k. k < l \<Longrightarrow> dest1 ! (d + k) = p4_b (symbolBuffer ! (2 * k)) (symbolBuffer ! (2 * k + 1))"
    by auto
  define dest' where "dest' = (if r = 0 then dest1 else dest1[d + l := ucast (symbolBuffer ! (2 * l))])"
  have b1: "d + l < length dest" if "r \<noteq> 0" using assms that by (simp add: ps)
  have s1: "2 * l < length symbolBuffer" if "r \<noteq> 0" using assms that by (simp add: sc)
  have pos: "l * 2 \<noteq> symbolCount \<longleftrightarrow> r \<noteq> 0" by (auto simp: sc)
  have 1: "pack4 dest d symbolBuffer symbolCount = Some dest'"
    unfolding pack4_def dv Let_def l using b1 s1
    by (simp add: pos dest'_def load_def store_def assign_byte_def len)
  have 2: "length dest' = length dest" by (simp add: dest'_def len)
  have 3: "\<forall>i. i < d \<or> d + packed_size 4 symbolCount \<le> i \<longrightarrow> dest' ! i = dest ! i"
    using fr r by (auto simp: dest'_def ps)
  have 4: "dest' ! (d + k) =
            (if 2 * k + 1 < symbolCount then p4_b (symbolBuffer ! (2 * k)) (symbolBuffer ! (2 * k + 1))
             else ucast (symbolBuffer ! (2 * k)))" if "2 * k < symbolCount" for k
  proof (cases "k < l")
    case True
    then show ?thesis using ct [of k] by (simp add: sc dest'_def)
  next
    case False
    with that r have "k = l" "r \<noteq> 0" by (auto simp: sc)
    then show ?thesis using r b1 len by (auto simp: dest'_def sc)
  qed
  from 1 2 3 4 show ?thesis by blast
qed

lemma pack4_SomeD:
  assumes "pack4 dest d symbolBuffer symbolCount = Some dest'" "0 < symbolCount"
  shows "symbolCount \<le> length symbolBuffer \<and> d + packed_size 4 symbolCount \<le> length dest"
proof -
  define l where "l = symbolCount div 2"
  define r where "r = symbolCount mod 2"
  have sc: "symbolCount = 2 * l + r" and r: "r < 2" by (simp_all add: l_def r_def)
  have dv: "symbolCount div 2 = l" by (simp add: l_def)
  have ps: "packed_size 4 symbolCount = l + r"
    by (subst sc) (rule packed_size_4 [OF r])
  from assms(1) obtain st1 where lp: "pack4_loop l symbolBuffer (dest, d, 0) = Some st1"
    unfolding pack4_def dv Let_def by (auto simp: bind_eq_Some_conv)
  from pack4_loop_SomeD [OF lp] obtain dest1 where
    st1: "st1 = (dest1, d + l, 2 * l)" and len1: "length dest1 = length dest"
    and bl: "0 < l \<Longrightarrow> d + l \<le> length dest \<and> 2 * l \<le> length symbolBuffer"
    by auto
  have pos: "l * 2 \<noteq> symbolCount \<longleftrightarrow> r \<noteq> 0" by (auto simp: sc)
  have tl: "(case st1 of (dest, d, s) \<Rightarrow>
       if l * 2 \<noteq> symbolCount then do {
         a \<leftarrow> load symbolBuffer s;
         assign_byte dest d a
       } else Some dest) = Some dest'"
    using assms(1) lp unfolding pack4_def dv Let_def by simp
  consider "r = 0" | "r = 1" using r by linarith
  then have "2 * l + r \<le> length symbolBuffer \<and> d + (l + r) \<le> length dest"
  proof cases
    case 1
    with assms(2) have "0 < l" by (simp add: sc)
    from bl [OF this] 1 show ?thesis by simp
  next
    case 2
    with tl have "2 * l < length symbolBuffer \<and> d + l < length dest"
      unfolding st1 by (auto simp: pos bind_eq_Some_conv len1 dest!: assign_byte_SomeD load_SomeD)
    with 2 show ?thesis by simp
  qed
  then show ?thesis unfolding ps by (simp add: sc)
qed


lemma unpack4_group_Some:
  assumes "s + 2 \<le> length symbolBuffer" "p + 1 \<le> length packedBuffer"
  shows "unpack4_group packedBuffer (symbolBuffer, s, p) =
     Some (symbolBuffer[s := u4_lo (packedBuffer ! p), s + 1 := u4_hi (packedBuffer ! p)], s + 2, p + 1)"
  using assms
  by (simp add: unpack4_group_def load_def store_def load_byte_def Let_def numeral_eq_Suc
       u4_lo_def u4_hi_def)

lemma unpack4_group_SomeD:
  assumes "unpack4_group packedBuffer (symbolBuffer, s, p) = Some st'"
  shows "s + 2 \<le> length symbolBuffer \<and> p + 1 \<le> length packedBuffer"
  using assms unfolding unpack4_group_def Let_def
  by (auto simp: bind_eq_Some_conv dest!: store_SomeD load_byte_SomeD)

lemma unpack4_loop_spec:
  assumes "s + 2 * n \<le> length symbolBuffer" "p + n \<le> length packedBuffer"
  shows "\<exists>out. unpack4_loop n packedBuffer (symbolBuffer, s, p) = Some (out, s + 2 * n, p + n)
     \<and> length out = length symbolBuffer
     \<and> (\<forall>i. i < s \<or> s + 2 * n \<le> i \<longrightarrow> out ! i = symbolBuffer ! i)
     \<and> (\<forall>k<n. out ! (s + 2 * k) = u4_lo (packedBuffer ! (p + k))
            \<and> out ! (s + 2 * k + 1) = u4_hi (packedBuffer ! (p + k)))"
  using assms
proof (induction n arbitrary: symbolBuffer s p)
  case 0
  then show ?case by simp
next
  case (Suc n)
  let ?o1 = "symbolBuffer[s := u4_lo (packedBuffer ! p), s + 1 := u4_hi (packedBuffer ! p)]"
  from Suc.prems have g: "unpack4_group packedBuffer (symbolBuffer, s, p) = Some (?o1, s + 2, p + 1)"
    by (intro unpack4_group_Some) auto
  from Suc.prems have "s + 2 + 2 * n \<le> length ?o1" "p + 1 + n \<le> length packedBuffer"
    by auto
  from Suc.IH [OF this] obtain out where
    l: "unpack4_loop n packedBuffer (?o1, s + 2, p + 1) = Some (out, s + 2 + 2 * n, p + 1 + n)"
    and len: "length out = length ?o1"
    and fr: "\<And>i. i < s + 2 \<or> s + 2 + 2 * n \<le> i \<Longrightarrow> out ! i = ?o1 ! i"
    and ct: "\<And>k. k < n \<Longrightarrow> out ! (s + 2 + 2 * k) = u4_lo (packedBuffer ! (p + 1 + k))
            \<and> out ! (s + 2 + 2 * k + 1) = u4_hi (packedBuffer ! (p + 1 + k))"
    by blast
  have 1: "unpack4_loop (Suc n) packedBuffer (symbolBuffer, s, p) = Some (out, s + 2 * Suc n, p + Suc n)"
    using g l by (simp add: add.assoc add.commute)
  have 2: "length out = length symbolBuffer" using len by simp
  have 3: "\<forall>i. i < s \<or> s + 2 * Suc n \<le> i \<longrightarrow> out ! i = symbolBuffer ! i"
    using fr by auto
  have 4: "out ! (s + 2 * k) = u4_lo (packedBuffer ! (p + k))
            \<and> out ! (s + 2 * k + 1) = u4_hi (packedBuffer ! (p + k))"
    if "k < Suc n" for k
  proof (cases k)
    case 0
    with Suc.prems show ?thesis using fr [of s] fr [of "s + 1"] by simp
  next
    case (Suc k')
    with that have "k' < n" by simp
    from ct [OF this] show ?thesis using Suc by (simp add: add.assoc add.commute add.left_commute)
  qed
  from 1 2 3 4 show ?case by blast
qed

lemma unpack4_loop_SomeD:
  assumes "unpack4_loop n packedBuffer (symbolBuffer, s, p) = Some st'"
  shows "\<exists>out. st' = (out, s + 2 * n, p + n) \<and> length out = length symbolBuffer
     \<and> (0 < n \<longrightarrow> s + 2 * n \<le> length symbolBuffer \<and> p + n \<le> length packedBuffer)"
  using assms
proof (induction n arbitrary: symbolBuffer s p)
  case 0
  then show ?case by auto
next
  case (Suc n)
  from Suc.prems obtain st1 where g: "unpack4_group packedBuffer (symbolBuffer, s, p) = Some st1"
    and l: "unpack4_loop n packedBuffer st1 = Some st'"
    by (auto simp: bind_eq_Some_conv)
  from unpack4_group_SomeD [OF g] have b: "s + 2 \<le> length symbolBuffer" "p + 1 \<le> length packedBuffer" by auto
  from unpack4_group_Some [OF b] g obtain o1 where
    st1: "st1 = (o1, s + 2, p + 1)" and len1: "length o1 = length symbolBuffer" by auto
  from Suc.IH [OF l [unfolded st1]] obtain out where
    "st' = (out, s + 2 + 2 * n, p + 1 + n)" "length out = length o1"
    "0 < n \<longrightarrow> s + 2 + 2 * n \<le> length o1 \<and> p + 1 + n \<le> length packedBuffer"
    by auto
  with b len1 show ?case by (cases "n = 0") auto
qed

lemma unpack4_spec:
  assumes "symbolCount \<le> length symbolBuffer" "p + packed_size 4 symbolCount \<le> length packedBuffer"
  shows "\<exists>out. unpack4 symbolBuffer packedBuffer p symbolCount = Some out
     \<and> length out = length symbolBuffer
     \<and> (\<forall>i. symbolCount \<le> i \<longrightarrow> out ! i = symbolBuffer ! i)
     \<and> (\<forall>k. 2 * k < symbolCount \<longrightarrow> out ! (2 * k) = u4_lo (packedBuffer ! (p + k)))
     \<and> (\<forall>k. 2 * k + 1 < symbolCount \<longrightarrow> out ! (2 * k + 1) = u4_hi (packedBuffer ! (p + k)))"
proof -
  define l where "l = symbolCount div 2"
  define r where "r = symbolCount mod 2"
  have sc: "symbolCount = 2 * l + r" and r: "r < 2" by (simp_all add: l_def r_def)
  have dv: "symbolCount div 2 = l" by (simp add: l_def)
  have ps: "packed_size 4 symbolCount = l + r"
    by (subst sc) (rule packed_size_4 [OF r])
  from assms have "0 + 2 * l \<le> length symbolBuffer" "p + l \<le> length packedBuffer"
    unfolding ps by (simp_all add: sc)
  from unpack4_loop_spec [OF this] obtain o1 where
    l: "unpack4_loop l packedBuffer (symbolBuffer, 0, p) = Some (o1, 2 * l, p + l)"
    and len: "length o1 = length symbolBuffer"
    and fr: "\<And>i. 2 * l \<le> i \<Longrightarrow> o1 ! i = symbolBuffer ! i"
    and ct: "\<And>k. k < l \<Longrightarrow> o1 ! (2 * k) = u4_lo (packedBuffer ! (p + k))
            \<and> o1 ! (2 * k + 1) = u4_hi (packedBuffer ! (p + k))"
    by auto
  define out where "out = (if r = 0 then o1 else o1[2 * l := u4_lo (packedBuffer ! (p + l))])"
  have b1: "p + l < length packedBuffer" if "r \<noteq> 0" using assms that by (simp add: ps)
  have s1: "2 * l < length symbolBuffer" if "r \<noteq> 0" using assms that by (simp add: sc)
  have pos: "l * 2 \<noteq> symbolCount \<longleftrightarrow> r \<noteq> 0" by (auto simp: sc)
  have 1: "unpack4 symbolBuffer packedBuffer p symbolCount = Some out"
    unfolding unpack4_def dv Let_def l using b1 s1
    by (simp add: pos out_def load_def store_def load_byte_def len u4_lo_def)
  have 2: "length out = length symbolBuffer" by (simp add: out_def len)
  have 3: "\<forall>i. symbolCount \<le> i \<longrightarrow> out ! i = symbolBuffer ! i"
    using fr r by (auto simp: out_def sc)
  have 4: "out ! (2 * k) = u4_lo (packedBuffer ! (p + k))" if "2 * k < symbolCount" for k
  proof (cases "k < l")
    case True
    then show ?thesis using ct [of k] by (simp add: out_def)
  next
    case False
    with that r have "k = l" "r \<noteq> 0" by (auto simp: sc)
    then show ?thesis using r s1 len by (auto simp: out_def)
  qed
  have 5: "out ! (2 * k + 1) = u4_hi (packedBuffer ! (p + k))" if "2 * k + 1 < symbolCount" for k
  proof -
    from that r have "k < l" by (auto simp: sc)
    then show ?thesis using ct [of k] by (simp add: out_def)
  qed
  from 1 2 3 4 5 show ?thesis by blast
qed

lemma unpack4_SomeD:
  assumes "unpack4 symbolBuffer packedBuffer p symbolCount = Some out" "0 < symbolCount"
  shows "symbolCount \<le> length symbolBuffer \<and> p + packed_size 4 symbolCount \<le> length packedBuffer"
proof -
  define l where "l = symbolCount div 2"
  define r where "r = symbolCount mod 2"
  have sc: "symbolCount = 2 * l + r" and r: "r < 2" by (simp_all add: l_def r_def)
  have dv: "symbolCount div 2 = l" by (simp add: l_def)
  have ps: "packed_size 4 symbolCount = l + r"
    by (subst sc) (rule packed_size_4 [OF r])
  from assms(1) obtain st1 where lp: "unpack4_loop l packedBuffer (symbolBuffer, 0, p) = Some st1"
    unfolding unpack4_def dv Let_def by (auto simp: bind_eq_Some_conv)
  from unpack4_loop_SomeD [OF lp] obtain o1 where
    st1: "st1 = (o1, 2 * l, p + l)" and len1: "length o1 = length symbolBuffer"
    and bl: "0 < l \<Longrightarrow> 2 * l \<le> length symbolBuffer \<and> p + l \<le> length packedBuffer"
    by auto
  have pos: "l * 2 \<noteq> symbolCount \<longleftrightarrow> r \<noteq> 0" by (auto simp: sc)
  have tl: "(case st1 of (symbolBuffer, s, p) \<Rightarrow>
       if l * 2 \<noteq> symbolCount then do {
         x \<leftarrow> load_byte packedBuffer p;
         store symbolBuffer s (x AND 0x0F)
       } else Some symbolBuffer) = Some out"
    using assms(1) lp unfolding unpack4_def dv Let_def by simp
  consider "r = 0" | "r = 1" using r by linarith
  then have "2 * l + r \<le> length symbolBuffer \<and> p + (l + r) \<le> length packedBuffer"
  proof cases
    case 1
    with assms(2) have "0 < l" by (simp add: sc)
    from bl [OF this] 1 show ?thesis by simp
  next
    case 2
    with tl have "2 * l < length symbolBuffer \<and> p + l < length packedBuffer"
      unfolding st1 by (auto simp: pos bind_eq_Some_conv len1 dest!: store_SomeD load_byte_SomeD)
    with 2 show ?thesis by simp
  qed
  then show ?thesis unfolding ps by (simp add: sc)
qed


section \<open>The twelve-bit packer\<close>


lemma pack12_group_Some:
  assumes "s + 2 \<le> length symbolBuffer" "d + 3 \<le> length dest"
  shows "pack12_group symbolBuffer (dest, d, s) = Some (dest
     [d := p12_b0 (symbolBuffer ! s),
      d + 1 := p12_b1 (symbolBuffer ! s) (symbolBuffer ! (s + 1)),
      d + 2 := p12_b2 (symbolBuffer ! (s + 1))], d + 3, s + 2)"
  using assms
  by (simp add: pack12_group_def load_def store_def assign_byte_def or_byte_def Let_def numeral_eq_Suc
       p12_b0_def p12_b1_def p12_b2_def)

lemma pack12_group_SomeD:
  assumes "pack12_group symbolBuffer (dest, d, s) = Some st'"
  shows "d + 3 \<le> length dest \<and> s + 2 \<le> length symbolBuffer"
  using assms unfolding pack12_group_def Let_def
  by (auto simp: bind_eq_Some_conv dest!: assign_byte_SomeD or_byte_SomeD load_SomeD)

lemma pack12_loop_spec:
  assumes "s + 2 * n \<le> length symbolBuffer" "d + 3 * n \<le> length dest"
  shows "\<exists>dest'. pack12_loop n symbolBuffer (dest, d, s) = Some (dest', d + 3 * n, s + 2 * n)
     \<and> length dest' = length dest
     \<and> (\<forall>i. i < d \<or> d + 3 * n \<le> i \<longrightarrow> dest' ! i = dest ! i)
     \<and> (\<forall>k<n. dest' ! (d + 3 * k) = p12_b0 (symbolBuffer ! (s + 2 * k))
            \<and> dest' ! (d + 3 * k + 1) = p12_b1 (symbolBuffer ! (s + 2 * k)) (symbolBuffer ! (s + 2 * k + 1))
            \<and> dest' ! (d + 3 * k + 2) = p12_b2 (symbolBuffer ! (s + 2 * k + 1)))"
  using assms
proof (induction n arbitrary: dest d s)
  case 0
  then show ?case by simp
next
  case (Suc n)
  let ?d1 = "dest[d := p12_b0 (symbolBuffer ! s),
      d + 1 := p12_b1 (symbolBuffer ! s) (symbolBuffer ! (s + 1)),
      d + 2 := p12_b2 (symbolBuffer ! (s + 1))]"
  from Suc.prems have g: "pack12_group symbolBuffer (dest, d, s) = Some (?d1, d + 3, s + 2)"
    by (intro pack12_group_Some) auto
  from Suc.prems have "s + 2 + 2 * n \<le> length symbolBuffer" "d + 3 + 3 * n \<le> length ?d1"
    by auto
  from Suc.IH [OF this] obtain dest' where
    l: "pack12_loop n symbolBuffer (?d1, d + 3, s + 2) = Some (dest', d + 3 + 3 * n, s + 2 + 2 * n)"
    and len: "length dest' = length ?d1"
    and fr: "\<And>i. i < d + 3 \<or> d + 3 + 3 * n \<le> i \<Longrightarrow> dest' ! i = ?d1 ! i"
    and ct: "\<And>k. k < n \<Longrightarrow> dest' ! (d + 3 + 3 * k) = p12_b0 (symbolBuffer ! (s + 2 + 2 * k))
            \<and> dest' ! (d + 3 + 3 * k + 1) = p12_b1 (symbolBuffer ! (s + 2 + 2 * k)) (symbolBuffer ! (s + 2 + 2 * k + 1))
            \<and> dest' ! (d + 3 + 3 * k + 2) = p12_b2 (symbolBuffer ! (s + 2 + 2 * k + 1))"
    by blast
  have 1: "pack12_loop (Suc n) symbolBuffer (dest, d, s) = Some (dest', d + 3 * Suc n, s + 2 * Suc n)"
    using g l by (simp add: add.assoc add.commute)
  have 2: "length dest' = length dest" using len by simp
  have 3: "\<forall>i. i < d \<or> d + 3 * Suc n \<le> i \<longrightarrow> dest' ! i = dest ! i"
    using fr by auto
  have 4: "dest' ! (d + 3 * k) = p12_b0 (symbolBuffer ! (s + 2 * k))
            \<and> dest' ! (d + 3 * k + 1) = p12_b1 (symbolBuffer ! (s + 2 * k)) (symbolBuffer ! (s + 2 * k + 1))
            \<and> dest' ! (d + 3 * k + 2) = p12_b2 (symbolBuffer ! (s + 2 * k + 1))"
    if "k < Suc n" for k
  proof (cases k)
    case 0
    with Suc.prems show ?thesis using fr [of d] fr [of "d + 1"] fr [of "d + 2"] by simp
  next
    case (Suc k')
    with that have "k' < n" by simp
    from ct [OF this] show ?thesis using Suc by (simp add: add.assoc add.commute add.left_commute)
  qed
  from 1 2 3 4 show ?case by blast
qed

lemma pack12_loop_SomeD:
  assumes "pack12_loop n symbolBuffer (dest, d, s) = Some st'"
  shows "\<exists>dest'. st' = (dest', d + 3 * n, s + 2 * n) \<and> length dest' = length dest
     \<and> (0 < n \<longrightarrow> d + 3 * n \<le> length dest \<and> s + 2 * n \<le> length symbolBuffer)"
  using assms
proof (induction n arbitrary: dest d s)
  case 0
  then show ?case by auto
next
  case (Suc n)
  from Suc.prems obtain st1 where g: "pack12_group symbolBuffer (dest, d, s) = Some st1"
    and l: "pack12_loop n symbolBuffer st1 = Some st'"
    by (auto simp: bind_eq_Some_conv)
  from pack12_group_SomeD [OF g] have b: "d + 3 \<le> length dest" "s + 2 \<le> length symbolBuffer" by auto
  from pack12_group_Some [OF b(2) b(1)] g obtain dest1 where
    st1: "st1 = (dest1, d + 3, s + 2)" and len1: "length dest1 = length dest" by auto
  from Suc.IH [OF l [unfolded st1]] obtain dest' where
    "st' = (dest', d + 3 + 3 * n, s + 2 + 2 * n)" "length dest' = length dest1"
    "0 < n \<longrightarrow> d + 3 + 3 * n \<le> length dest1 \<and> s + 2 + 2 * n \<le> length symbolBuffer"
    by auto
  with b len1 show ?case by (cases "n = 0") auto
qed

lemma packed_size_12: "r < 2 \<Longrightarrow> packed_size 12 (2 * l + r) = 3 * l + 2 * r"
  by (cases "r = 0") (simp_all add: packed_size_def)

lemma pack12_spec:
  assumes "symbolCount \<le> length symbolBuffer" "d + packed_size 12 symbolCount \<le> length dest"
  shows "\<exists>dest'. pack12 dest d symbolBuffer symbolCount = Some dest'
     \<and> length dest' = length dest
     \<and> (\<forall>i. i < d \<or> d + packed_size 12 symbolCount \<le> i \<longrightarrow> dest' ! i = dest ! i)
     \<and> (\<forall>k. 2 * k < symbolCount \<longrightarrow> dest' ! (d + 3 * k) = p12_b0 (symbolBuffer ! (2 * k)))
     \<and> (\<forall>k. 2 * k < symbolCount \<longrightarrow> dest' ! (d + 3 * k + 1) =
            (if 2 * k + 1 < symbolCount then p12_b1 (symbolBuffer ! (2 * k)) (symbolBuffer ! (2 * k + 1))
             else p12_t1 (symbolBuffer ! (2 * k))))
     \<and> (\<forall>k. 2 * k + 1 < symbolCount \<longrightarrow> dest' ! (d + 3 * k + 2) = p12_b2 (symbolBuffer ! (2 * k + 1)))"
proof -
  define l where "l = symbolCount div 2"
  define r where "r = symbolCount mod 2"
  have sc: "symbolCount = 2 * l + r" and r: "r < 2" by (simp_all add: l_def r_def)
  have dv: "symbolCount div 2 = l" by (simp add: l_def)
  have ps: "packed_size 12 symbolCount = 3 * l + 2 * r"
    by (subst sc) (rule packed_size_12 [OF r])
  from assms have "0 + 2 * l \<le> length symbolBuffer" "d + 3 * l \<le> length dest"
    unfolding ps by (simp_all add: sc)
  from pack12_loop_spec [OF this] obtain dest1 where
    l: "pack12_loop l symbolBuffer (dest, d, 0) = Some (dest1, d + 3 * l, 2 * l)"
    and len: "length dest1 = length dest"
    and fr: "\<And>i. i < d \<or> d + 3 * l \<le> i \<Longrightarrow> dest1 ! i = dest ! i"
    and ct: "\<And>k. k < l \<Longrightarrow> dest1 ! (d + 3 * k) = p12_b0 (symbolBuffer ! (2 * k))
            \<and> dest1 ! (d + 3 * k + 1) = p12_b1 (symbolBuffer ! (2 * k)) (symbolBuffer ! (2 * k + 1))
            \<and> dest1 ! (d + 3 * k + 2) = p12_b2 (symbolBuffer ! (2 * k + 1))"
    by auto
  define a where "a = symbolBuffer ! (2 * l)"
  define dest' where "dest' =
    (if r = 0 then dest1 else dest1[d + 3 * l := p12_b0 a, d + 3 * l + 1 := p12_t1 a])"
  have b1: "d + 3 * l < length dest" "Suc (d + 3 * l) < length dest" if "r \<noteq> 0"
    using assms r that by (simp_all add: ps)
  have s1: "2 * l < length symbolBuffer" if "r \<noteq> 0" using assms that by (simp add: sc)
  have pos: "l * 2 \<noteq> symbolCount \<longleftrightarrow> r \<noteq> 0" by (auto simp: sc)
  have 1: "pack12 dest d symbolBuffer symbolCount = Some dest'"
    unfolding pack12_def dv Let_def l using b1 s1
    by (simp add: pos dest'_def load_def store_def assign_byte_def len a_def p12_b0_def p12_t1_def)
  have 2: "length dest' = length dest" by (simp add: dest'_def len)
  have 3: "\<forall>i. i < d \<or> d + packed_size 12 symbolCount \<le> i \<longrightarrow> dest' ! i = dest ! i"
    using fr r by (auto simp: dest'_def ps)
  have klt: "dest' ! (d + 3 * k + m) = dest1 ! (d + 3 * k + m)" if "k < l" "m < 3" for k m
    using that by (simp add: dest'_def)
  have 4: "dest' ! (d + 3 * k) = p12_b0 (symbolBuffer ! (2 * k))" if "2 * k < symbolCount" for k
  proof (cases "k < l")
    case True
    then show ?thesis using klt [of k 0] ct [of k] by simp
  next
    case False
    with that r have "k = l" "r \<noteq> 0" by (auto simp: sc)
    then show ?thesis using r b1 len by (auto simp: dest'_def a_def)
  qed
  have 5: "dest' ! (d + 3 * k + 1) =
            (if 2 * k + 1 < symbolCount then p12_b1 (symbolBuffer ! (2 * k)) (symbolBuffer ! (2 * k + 1))
             else p12_t1 (symbolBuffer ! (2 * k)))" if "2 * k < symbolCount" for k
  proof (cases "k < l")
    case True
    then show ?thesis using klt [of k 1] ct [of k] by (simp add: sc)
  next
    case False
    with that r have "k = l" "r \<noteq> 0" by (auto simp: sc)
    then show ?thesis using r b1 len by (auto simp: dest'_def a_def sc)
  qed
  have 6: "dest' ! (d + 3 * k + 2) = p12_b2 (symbolBuffer ! (2 * k + 1))" if "2 * k + 1 < symbolCount" for k
  proof -
    from that r have "k < l" by (auto simp: sc)
    then show ?thesis using klt [of k 2] ct [of k] by simp
  qed
  from 1 2 3 4 5 6 show ?thesis by blast
qed

lemma pack12_SomeD:
  assumes "pack12 dest d symbolBuffer symbolCount = Some dest'" "0 < symbolCount"
  shows "symbolCount \<le> length symbolBuffer \<and> d + packed_size 12 symbolCount \<le> length dest"
proof -
  define l where "l = symbolCount div 2"
  define r where "r = symbolCount mod 2"
  have sc: "symbolCount = 2 * l + r" and r: "r < 2" by (simp_all add: l_def r_def)
  have dv: "symbolCount div 2 = l" by (simp add: l_def)
  have ps: "packed_size 12 symbolCount = 3 * l + 2 * r"
    by (subst sc) (rule packed_size_12 [OF r])
  from assms(1) obtain st1 where lp: "pack12_loop l symbolBuffer (dest, d, 0) = Some st1"
    unfolding pack12_def dv Let_def by (auto simp: bind_eq_Some_conv)
  from pack12_loop_SomeD [OF lp] obtain dest1 where
    st1: "st1 = (dest1, d + 3 * l, 2 * l)" and len1: "length dest1 = length dest"
    and bl: "0 < l \<Longrightarrow> d + 3 * l \<le> length dest \<and> 2 * l \<le> length symbolBuffer"
    by auto
  have pos: "l * 2 \<noteq> symbolCount \<longleftrightarrow> r \<noteq> 0" by (auto simp: sc)
  have tl: "(case st1 of (dest, d, s) \<Rightarrow>
       if l * 2 \<noteq> symbolCount then do {
         a \<leftarrow> load symbolBuffer s;
         dest \<leftarrow> assign_byte dest d (a AND 0x0FF);
         a \<leftarrow> load symbolBuffer s;
         assign_byte dest (d + 1) (drop_bit 8 (a AND 0xF00))
       } else Some dest) = Some dest'"
    using assms(1) lp unfolding pack12_def dv Let_def by simp
  consider "r = 0" | "r = 1" using r by linarith
  then have "2 * l + r \<le> length symbolBuffer \<and> d + (3 * l + 2 * r) \<le> length dest"
  proof cases
    case 1
    with assms(2) have "0 < l" by (simp add: sc)
    from bl [OF this] 1 show ?thesis by simp
  next
    case 2
    with tl have "2 * l < length symbolBuffer \<and> d + 3 * l + 1 < length dest"
      unfolding st1 by (auto simp: pos bind_eq_Some_conv len1 dest!: assign_byte_SomeD load_SomeD)
    with 2 show ?thesis by simp
  qed
  then show ?thesis unfolding ps by (simp add: sc)
qed


lemma unpack12_group_Some:
  assumes "s + 2 \<le> length symbolBuffer" "p + 3 \<le> length packedBuffer"
  shows "unpack12_group packedBuffer (symbolBuffer, s, p) = Some (symbolBuffer
     [s := u12_a (packedBuffer ! p) (packedBuffer ! (p + 1)),
      s + 1 := u12_b (packedBuffer ! (p + 1)) (packedBuffer ! (p + 2))], s + 2, p + 3)"
  using assms
  by (simp add: unpack12_group_def load_def store_def load_byte_def or_symbol_def Let_def numeral_eq_Suc
       u12_a_def u12_b_def)

lemma unpack12_group_SomeD:
  assumes "unpack12_group packedBuffer (symbolBuffer, s, p) = Some st'"
  shows "s + 2 \<le> length symbolBuffer \<and> p + 3 \<le> length packedBuffer"
  using assms unfolding unpack12_group_def Let_def
  by (auto simp: bind_eq_Some_conv dest!: store_SomeD or_symbol_SomeD load_byte_SomeD)

lemma unpack12_loop_spec:
  assumes "s + 2 * n \<le> length symbolBuffer" "p + 3 * n \<le> length packedBuffer"
  shows "\<exists>out. unpack12_loop n packedBuffer (symbolBuffer, s, p) = Some (out, s + 2 * n, p + 3 * n)
     \<and> length out = length symbolBuffer
     \<and> (\<forall>i. i < s \<or> s + 2 * n \<le> i \<longrightarrow> out ! i = symbolBuffer ! i)
     \<and> (\<forall>k<n. out ! (s + 2 * k) = u12_a (packedBuffer ! (p + 3 * k)) (packedBuffer ! (p + 3 * k + 1))
            \<and> out ! (s + 2 * k + 1) = u12_b (packedBuffer ! (p + 3 * k + 1)) (packedBuffer ! (p + 3 * k + 2)))"
  using assms
proof (induction n arbitrary: symbolBuffer s p)
  case 0
  then show ?case by simp
next
  case (Suc n)
  let ?o1 = "symbolBuffer
     [s := u12_a (packedBuffer ! p) (packedBuffer ! (p + 1)),
      s + 1 := u12_b (packedBuffer ! (p + 1)) (packedBuffer ! (p + 2))]"
  from Suc.prems have g: "unpack12_group packedBuffer (symbolBuffer, s, p) = Some (?o1, s + 2, p + 3)"
    by (intro unpack12_group_Some) auto
  from Suc.prems have "s + 2 + 2 * n \<le> length ?o1" "p + 3 + 3 * n \<le> length packedBuffer"
    by auto
  from Suc.IH [OF this] obtain out where
    l: "unpack12_loop n packedBuffer (?o1, s + 2, p + 3) = Some (out, s + 2 + 2 * n, p + 3 + 3 * n)"
    and len: "length out = length ?o1"
    and fr: "\<And>i. i < s + 2 \<or> s + 2 + 2 * n \<le> i \<Longrightarrow> out ! i = ?o1 ! i"
    and ct: "\<And>k. k < n \<Longrightarrow>
          out ! (s + 2 + 2 * k) = u12_a (packedBuffer ! (p + 3 + 3 * k)) (packedBuffer ! (p + 3 + 3 * k + 1))
        \<and> out ! (s + 2 + 2 * k + 1) = u12_b (packedBuffer ! (p + 3 + 3 * k + 1)) (packedBuffer ! (p + 3 + 3 * k + 2))"
    by blast
  have 1: "unpack12_loop (Suc n) packedBuffer (symbolBuffer, s, p) = Some (out, s + 2 * Suc n, p + 3 * Suc n)"
    using g l by (simp add: add.assoc add.commute)
  have 2: "length out = length symbolBuffer" using len by simp
  have 3: "\<forall>i. i < s \<or> s + 2 * Suc n \<le> i \<longrightarrow> out ! i = symbolBuffer ! i"
    using fr by auto
  have 4: "out ! (s + 2 * k) = u12_a (packedBuffer ! (p + 3 * k)) (packedBuffer ! (p + 3 * k + 1))
            \<and> out ! (s + 2 * k + 1) = u12_b (packedBuffer ! (p + 3 * k + 1)) (packedBuffer ! (p + 3 * k + 2))"
    if "k < Suc n" for k
  proof (cases k)
    case 0
    with Suc.prems show ?thesis using fr [of s] fr [of "s + 1"] by simp
  next
    case (Suc k')
    with that have "k' < n" by simp
    from ct [OF this] show ?thesis using Suc by (simp add: add.assoc add.commute add.left_commute)
  qed
  from 1 2 3 4 show ?case by blast
qed

lemma unpack12_loop_SomeD:
  assumes "unpack12_loop n packedBuffer (symbolBuffer, s, p) = Some st'"
  shows "\<exists>out. st' = (out, s + 2 * n, p + 3 * n) \<and> length out = length symbolBuffer
     \<and> (0 < n \<longrightarrow> s + 2 * n \<le> length symbolBuffer \<and> p + 3 * n \<le> length packedBuffer)"
  using assms
proof (induction n arbitrary: symbolBuffer s p)
  case 0
  then show ?case by auto
next
  case (Suc n)
  from Suc.prems obtain st1 where g: "unpack12_group packedBuffer (symbolBuffer, s, p) = Some st1"
    and l: "unpack12_loop n packedBuffer st1 = Some st'"
    by (auto simp: bind_eq_Some_conv)
  from unpack12_group_SomeD [OF g] have b: "s + 2 \<le> length symbolBuffer" "p + 3 \<le> length packedBuffer" by auto
  from unpack12_group_Some [OF b] g obtain o1 where
    st1: "st1 = (o1, s + 2, p + 3)" and len1: "length o1 = length symbolBuffer" by auto
  from Suc.IH [OF l [unfolded st1]] obtain out where
    "st' = (out, s + 2 + 2 * n, p + 3 + 3 * n)" "length out = length o1"
    "0 < n \<longrightarrow> s + 2 + 2 * n \<le> length o1 \<and> p + 3 + 3 * n \<le> length packedBuffer"
    by auto
  with b len1 show ?case by (cases "n = 0") auto
qed

lemma unpack12_spec:
  assumes "symbolCount \<le> length symbolBuffer" "p + packed_size 12 symbolCount \<le> length packedBuffer"
  shows "\<exists>out. unpack12 symbolBuffer packedBuffer p symbolCount = Some out
     \<and> length out = length symbolBuffer
     \<and> (\<forall>i. symbolCount \<le> i \<longrightarrow> out ! i = symbolBuffer ! i)
     \<and> (\<forall>k. 2 * k < symbolCount \<longrightarrow>
           out ! (2 * k) = u12_a (packedBuffer ! (p + 3 * k)) (packedBuffer ! (p + 3 * k + 1)))
     \<and> (\<forall>k. 2 * k + 1 < symbolCount \<longrightarrow>
           out ! (2 * k + 1) = u12_b (packedBuffer ! (p + 3 * k + 1)) (packedBuffer ! (p + 3 * k + 2)))"
proof -
  define l where "l = symbolCount div 2"
  define r where "r = symbolCount mod 2"
  have sc: "symbolCount = 2 * l + r" and r: "r < 2" by (simp_all add: l_def r_def)
  have dv: "symbolCount div 2 = l" by (simp add: l_def)
  have ps: "packed_size 12 symbolCount = 3 * l + 2 * r"
    by (subst sc) (rule packed_size_12 [OF r])
  from assms have "0 + 2 * l \<le> length symbolBuffer" "p + 3 * l \<le> length packedBuffer"
    unfolding ps by (simp_all add: sc)
  from unpack12_loop_spec [OF this] obtain o1 where
    l: "unpack12_loop l packedBuffer (symbolBuffer, 0, p) = Some (o1, 2 * l, p + 3 * l)"
    and len: "length o1 = length symbolBuffer"
    and fr: "\<And>i. 2 * l \<le> i \<Longrightarrow> o1 ! i = symbolBuffer ! i"
    and ct: "\<And>k. k < l \<Longrightarrow>
          o1 ! (2 * k) = u12_a (packedBuffer ! (p + 3 * k)) (packedBuffer ! (p + 3 * k + 1))
        \<and> o1 ! (2 * k + 1) = u12_b (packedBuffer ! (p + 3 * k + 1)) (packedBuffer ! (p + 3 * k + 2))"
    by auto
  define out where "out = (if r = 0 then o1
     else o1[2 * l := u12_a (packedBuffer ! (p + 3 * l)) (packedBuffer ! (p + 3 * l + 1))])"
  have b1: "p + 3 * l < length packedBuffer" "Suc (p + 3 * l) < length packedBuffer" if "r \<noteq> 0"
    using assms r that by (simp_all add: ps)
  have s1: "2 * l < length symbolBuffer" if "r \<noteq> 0" using assms that by (simp add: sc)
  have pos: "l * 2 \<noteq> symbolCount \<longleftrightarrow> r \<noteq> 0" by (auto simp: sc)
  have 1: "unpack12 symbolBuffer packedBuffer p symbolCount = Some out"
    unfolding unpack12_def dv Let_def l using b1 s1
    by (simp add: pos out_def load_def store_def load_byte_def or_symbol_def len u12_a_def)
  have 2: "length out = length symbolBuffer" by (simp add: out_def len)
  have 3: "\<forall>i. symbolCount \<le> i \<longrightarrow> out ! i = symbolBuffer ! i"
    using fr r by (auto simp: out_def sc)
  have 4: "out ! (2 * k) = u12_a (packedBuffer ! (p + 3 * k)) (packedBuffer ! (p + 3 * k + 1))"
    if "2 * k < symbolCount" for k
  proof (cases "k < l")
    case True
    then show ?thesis using ct [of k] by (simp add: out_def)
  next
    case False
    with that r have "k = l" "r \<noteq> 0" by (auto simp: sc)
    then show ?thesis using r s1 len by (auto simp: out_def)
  qed
  have 5: "out ! (2 * k + 1) = u12_b (packedBuffer ! (p + 3 * k + 1)) (packedBuffer ! (p + 3 * k + 2))"
    if "2 * k + 1 < symbolCount" for k
  proof -
    from that r have "k < l" by (auto simp: sc)
    then show ?thesis using ct [of k] by (simp add: out_def)
  qed
  from 1 2 3 4 5 show ?thesis by blast
qed

lemma unpack12_SomeD:
  assumes "unpack12 symbolBuffer packedBuffer p symbolCount = Some out" "0 < symbolCount"
  shows "symbolCount \<le> length symbolBuffer \<and> p + packed_size 12 symbolCount \<le> length packedBuffer"
proof -
  define l where "l = symbolCount div 2"
  define r where "r = symbolCount mod 2"
  have sc: "symbolCount = 2 * l + r" and r: "r < 2" by (simp_all add: l_def r_def)
  have dv: "symbolCount div 2 = l" by (simp add: l_def)
  have ps: "packed_size 12 symbolCount = 3 * l + 2 * r"
    by (subst sc) (rule packed_size_12 [OF r])
  from assms(1) obtain st1 where lp: "unpack12_loop l packedBuffer (symbolBuffer, 0, p) = Some st1"
    unfolding unpack12_def dv Let_def by (auto simp: bind_eq_Some_conv)
  from unpack12_loop_SomeD [OF lp] obtain o1 where
    st1: "st1 = (o1, 2 * l, p + 3 * l)" and len1: "length o1 = length symbolBuffer"
    and bl: "0 < l \<Longrightarrow> 2 * l \<le> length symbolBuffer \<and> p + 3 * l \<le> length packedBuffer"
    by auto
  have pos: "l * 2 \<noteq> symbolCount \<longleftrightarrow> r \<noteq> 0" by (auto simp: sc)
  have tl: "(case st1 of (symbolBuffer, s, p) \<Rightarrow>
       if l * 2 \<noteq> symbolCount then do {
         x \<leftarrow> load_byte packedBuffer p;
         symbolBuffer \<leftarrow> store symbolBuffer s x;
         y \<leftarrow> load_byte packedBuffer (p + 1);
         or_symbol symbolBuffer s (push_bit 8 (y AND 0x0F))
       } else Some symbolBuffer) = Some out"
    using assms(1) lp unfolding unpack12_def dv Let_def by simp
  consider "r = 0" | "r = 1" using r by linarith
  then have "2 * l + r \<le> length symbolBuffer \<and> p + (3 * l + 2 * r) \<le> length packedBuffer"
  proof cases
    case 1
    with assms(2) have "0 < l" by (simp add: sc)
    from bl [OF this] 1 show ?thesis by simp
  next
    case 2
    with tl have "2 * l < length symbolBuffer \<and> p + 3 * l + 1 < length packedBuffer"
      unfolding st1 by (auto simp: pos bind_eq_Some_conv len1 dest!: store_SomeD or_symbol_SomeD load_byte_SomeD)
    with 2 show ?thesis by simp
  qed
  then show ?thesis unfolding ps by (simp add: sc)
qed


section \<open>The eight-bit packer\<close>


lemma packed_size_8: "packed_size 8 n = n"
  by (simp add: packed_size_def)

lemma pack8_loop_spec:
  assumes "i + n \<le> length symbolBuffer" "d + i + n \<le> length dest"
  shows "\<exists>dest'. pack8_loop n i d symbolBuffer dest = Some dest'
     \<and> length dest' = length dest
     \<and> (\<forall>j. j < d + i \<or> d + i + n \<le> j \<longrightarrow> dest' ! j = dest ! j)
     \<and> (\<forall>j. i \<le> j \<and> j < i + n \<longrightarrow> dest' ! (d + j) = ucast (symbolBuffer ! j))"
  using assms
proof (induction n arbitrary: i dest)
  case 0
  then show ?case by auto
next
  case (Suc n)
  let ?d1 = "dest[d + i := ucast (symbolBuffer ! i)]"
  from Suc.prems have "i + 1 + n \<le> length symbolBuffer" "d + (i + 1) + n \<le> length ?d1" by auto
  from Suc.IH [OF this] obtain dest' where
    l: "pack8_loop n (i + 1) d symbolBuffer ?d1 = Some dest'"
    and len: "length dest' = length ?d1"
    and fr: "\<And>j. j < d + (i + 1) \<or> d + (i + 1) + n \<le> j \<Longrightarrow> dest' ! j = ?d1 ! j"
    and ct: "\<And>j. i + 1 \<le> j \<and> j < i + 1 + n \<Longrightarrow> dest' ! (d + j) = ucast (symbolBuffer ! j)"
    by blast
  have 1: "pack8_loop (Suc n) i d symbolBuffer dest = Some dest'"
    using Suc.prems l by (simp add: load_def assign_byte_def store_def)
  have 2: "length dest' = length dest" using len by simp
  have 3: "\<forall>j. j < d + i \<or> d + i + Suc n \<le> j \<longrightarrow> dest' ! j = dest ! j"
    using fr by auto
  have 4: "dest' ! (d + j) = ucast (symbolBuffer ! j)" if "i \<le> j \<and> j < i + Suc n" for j
  proof (cases "j = i")
    case True
    with Suc.prems show ?thesis using fr [of "d + i"] by simp
  next
    case False
    with that have "i + 1 \<le> j \<and> j < i + 1 + n" by simp
    from ct [OF this] show ?thesis .
  qed
  from 1 2 3 4 show ?case by blast
qed

lemma pack8_loop_SomeD:
  assumes "pack8_loop n i d symbolBuffer dest = Some dest'"
  shows "length dest' = length dest
     \<and> (0 < n \<longrightarrow> i + n \<le> length symbolBuffer \<and> d + i + n \<le> length dest)"
  using assms
proof (induction n arbitrary: i dest)
  case 0
  then show ?case by auto
next
  case (Suc n)
  from Suc.prems obtain a dest1 where a: "load symbolBuffer i = Some a"
    and s: "assign_byte dest (d + i) a = Some dest1"
    and l: "pack8_loop n (i + 1) d symbolBuffer dest1 = Some dest'"
    by (auto simp: bind_eq_Some_conv)
  from load_SomeD [OF a] assign_byte_SomeD [OF s]
  have b: "i < length symbolBuffer" "d + i < length dest" "length dest1 = length dest" by auto
  from Suc.IH [OF l] have "length dest' = length dest1"
    "0 < n \<longrightarrow> i + 1 + n \<le> length symbolBuffer \<and> d + (i + 1) + n \<le> length dest1" by auto
  with b show ?case by (cases "n = 0") auto
qed

lemma pack8_spec:
  assumes "symbolCount \<le> length symbolBuffer" "d + packed_size 8 symbolCount \<le> length dest"
  shows "\<exists>dest'. pack8 dest d symbolBuffer symbolCount = Some dest'
     \<and> length dest' = length dest
     \<and> (\<forall>i. i < d \<or> d + packed_size 8 symbolCount \<le> i \<longrightarrow> dest' ! i = dest ! i)
     \<and> (\<forall>j < symbolCount. dest' ! (d + j) = ucast (symbolBuffer ! j))"
  using assms pack8_loop_spec [of 0 symbolCount symbolBuffer d dest]
  by (simp add: pack8_def packed_size_8)

lemma pack8_SomeD:
  assumes "pack8 dest d symbolBuffer symbolCount = Some dest'" "0 < symbolCount"
  shows "symbolCount \<le> length symbolBuffer \<and> d + packed_size 8 symbolCount \<le> length dest"
  using assms pack8_loop_SomeD [of symbolCount 0 d symbolBuffer dest dest']
  by (simp add: pack8_def packed_size_8)

lemma unpack8_loop_spec:
  assumes "i + n \<le> length symbolBuffer" "p + i + n \<le> length packedBuffer"
  shows "\<exists>out. unpack8_loop n i p packedBuffer symbolBuffer = Some out
     \<and> length out = length symbolBuffer
     \<and> (\<forall>j. j < i \<or> i + n \<le> j \<longrightarrow> out ! j = symbolBuffer ! j)
     \<and> (\<forall>j. i \<le> j \<and> j < i + n \<longrightarrow> out ! j = ucast (packedBuffer ! (p + j)))"
  using assms
proof (induction n arbitrary: i symbolBuffer)
  case 0
  then show ?case by auto
next
  case (Suc n)
  let ?o1 = "symbolBuffer[i := ucast (packedBuffer ! (p + i))]"
  from Suc.prems have "i + 1 + n \<le> length ?o1" "p + (i + 1) + n \<le> length packedBuffer" by auto
  from Suc.IH [OF this] obtain out where
    l: "unpack8_loop n (i + 1) p packedBuffer ?o1 = Some out"
    and len: "length out = length ?o1"
    and fr: "\<And>j. j < i + 1 \<or> i + 1 + n \<le> j \<Longrightarrow> out ! j = ?o1 ! j"
    and ct: "\<And>j. i + 1 \<le> j \<and> j < i + 1 + n \<Longrightarrow> out ! j = ucast (packedBuffer ! (p + j))"
    by blast
  have 1: "unpack8_loop (Suc n) i p packedBuffer symbolBuffer = Some out"
    using Suc.prems l by (simp add: load_def load_byte_def store_def)
  have 2: "length out = length symbolBuffer" using len by simp
  have 3: "\<forall>j. j < i \<or> i + Suc n \<le> j \<longrightarrow> out ! j = symbolBuffer ! j"
    using fr by auto
  have 4: "out ! j = ucast (packedBuffer ! (p + j))" if "i \<le> j \<and> j < i + Suc n" for j
  proof (cases "j = i")
    case True
    with Suc.prems show ?thesis using fr [of i] by simp
  next
    case False
    with that have "i + 1 \<le> j \<and> j < i + 1 + n" by simp
    from ct [OF this] show ?thesis .
  qed
  from 1 2 3 4 show ?case by blast
qed

lemma unpack8_loop_SomeD:
  assumes "unpack8_loop n i p packedBuffer symbolBuffer = Some out"
  shows "length out = length symbolBuffer
     \<and> (0 < n \<longrightarrow> i + n \<le> length symbolBuffer \<and> p + i + n \<le> length packedBuffer)"
  using assms
proof (induction n arbitrary: i symbolBuffer)
  case 0
  then show ?case by auto
next
  case (Suc n)
  from Suc.prems obtain x o1 where x: "load_byte packedBuffer (p + i) = Some x"
    and s: "store symbolBuffer i x = Some o1"
    and l: "unpack8_loop n (i + 1) p packedBuffer o1 = Some out"
    by (auto simp: bind_eq_Some_conv)
  from load_byte_SomeD [OF x] store_SomeD [OF s]
  have b: "p + i < length packedBuffer" "i < length symbolBuffer" "length o1 = length symbolBuffer" by auto
  from Suc.IH [OF l] have "length out = length o1"
    "0 < n \<longrightarrow> i + 1 + n \<le> length o1 \<and> p + (i + 1) + n \<le> length packedBuffer" by auto
  with b show ?case by (cases "n = 0") auto
qed

lemma unpack8_spec:
  assumes "symbolCount \<le> length symbolBuffer" "p + packed_size 8 symbolCount \<le> length packedBuffer"
  shows "\<exists>out. unpack8 symbolBuffer packedBuffer p symbolCount = Some out
     \<and> length out = length symbolBuffer
     \<and> (\<forall>i. symbolCount \<le> i \<longrightarrow> out ! i = symbolBuffer ! i)
     \<and> (\<forall>j < symbolCount. out ! j = ucast (packedBuffer ! (p + j)))"
  using assms unpack8_loop_spec [of 0 symbolCount symbolBuffer p packedBuffer]
  by (simp add: unpack8_def packed_size_8)

lemma unpack8_SomeD:
  assumes "unpack8 symbolBuffer packedBuffer p symbolCount = Some out" "0 < symbolCount"
  shows "symbolCount \<le> length symbolBuffer \<and> p + packed_size 8 symbolCount \<le> length packedBuffer"
  using assms unpack8_loop_SomeD [of symbolCount 0 p packedBuffer symbolBuffer out]
  by (simp add: unpack8_def packed_size_8)


section \<open>Bit-level facts about the byte and symbol expressions\<close>


lemma c3: "(3::u32) = mask 2" by (simp add: mask_eq_exp_minus_1)
lemma c15: "(15::u32) = mask 4" by (simp add: mask_eq_exp_minus_1)
lemma c63: "(63::u32) = mask 6" by (simp add: mask_eq_exp_minus_1)
lemma c60: "(60::u32) = push_bit 2 (mask 4)" by (simp add: mask_eq_exp_minus_1 push_bit_eq_mult)
lemma c48: "(48::u32) = push_bit 4 (mask 2)" by (simp add: mask_eq_exp_minus_1 push_bit_eq_mult)
lemma c192: "(192::u32) = push_bit 6 (mask 2)" by (simp add: mask_eq_exp_minus_1 push_bit_eq_mult)
lemma c240: "(240::u32) = push_bit 4 (mask 4)" by (simp add: mask_eq_exp_minus_1 push_bit_eq_mult)
lemma c252: "(252::u32) = push_bit 2 (mask 6)" by (simp add: mask_eq_exp_minus_1 push_bit_eq_mult)

lemmas consts6 = c3 c15 c63 c60 c48 c192 c240 c252

lemma lt64: "(a::u32) < 64 \<Longrightarrow> take_bit 6 a = a"
  using less_mask_eq [of a 6] by (simp add: take_bit_eq_mask)

lemma lt64_bit: "(a::u32) < 64 \<Longrightarrow> bit a n \<Longrightarrow> n < 6"
  using lt64 [of a] by (metis bit_take_bit_iff)


lemma lt64_nobit: "(a::u32) < 64 \<Longrightarrow> 6 \<le> n \<Longrightarrow> \<not> bit a n"
  using lt64_bit [of a n] by auto

lemma lt64I: "(\<And>n. 6 \<le> n \<Longrightarrow> \<not> bit a n) \<Longrightarrow> (a::u32) < 64"
proof -
  assume h: "\<And>n. 6 \<le> n \<Longrightarrow> \<not> bit a n"
  have "take_bit 6 a = a"
  proof (rule bit_word_eqI)
    fix n :: nat
    show "bit (take_bit 6 a) n = bit a n"
      using h [of n] by (cases "n < 6") (simp_all add: bit_simps)
  qed
  then have "a AND mask 6 = a" by (simp add: take_bit_eq_mask)
  moreover have "a AND mask 6 < 2 ^ 6" by (rule and_mask_less_size) (simp add: word_size)
  ultimately show ?thesis by simp
qed

lemma eq6I:
  assumes "(x::u32) < 64" "y < 64"
    "bit x 0 = bit y 0" "bit x 1 = bit y 1" "bit x 2 = bit y 2"
    "bit x 3 = bit y 3" "bit x 4 = bit y 4" "bit x 5 = bit y 5"
  shows "x = y"
proof (rule bit_word_eqI)
  fix n :: nat
  consider "n = 0" | "n = 1" | "n = 2" | "n = 3" | "n = 4" | "n = 5" | "6 \<le> n" by linarith
  then show "bit x n = bit y n"
    using assms by cases (simp_all add: lt64_nobit)
qed

lemma u6_b_lt: "u6_b x y < 64"
  unfolding u6_b_def consts6
  by (rule lt64I) (auto simp: bit_simps)

lemma u6_a_lt: "u6_a x < 64"
  unfolding u6_a_def consts6
  by (rule lt64I) (auto simp: bit_simps)

lemma u6_c_lt: "u6_c x y < 64"
  unfolding u6_c_def consts6
  by (rule lt64I) (auto simp: bit_simps)

lemma u6_d_lt: "u6_d x < 64"
  unfolding u6_d_def consts6
  by (rule lt64I) (auto simp: bit_simps)


lemma u6_a_p6_b0: "a < 64 \<Longrightarrow> u6_a (p6_b0 a b) = a"
  apply (rule eq6I)
         apply (rule u6_a_lt)
        apply assumption
  unfolding u6_a_def p6_b0_def consts6
       apply (simp_all add: bit_simps lt64_nobit)
  done

lemma u6_a_tail: "a < 64 \<Longrightarrow> u6_a (ucast a) = a"
  apply (rule eq6I)
         apply (rule u6_a_lt)
        apply assumption
  unfolding u6_a_def consts6
       apply (simp_all add: bit_simps lt64_nobit)
  done

lemma u6_b_p6: "a < 64 \<Longrightarrow> b < 64 \<Longrightarrow> u6_b (p6_b0 a b) (p6_b1 b c) = b"
  apply (rule eq6I)
         apply (rule u6_b_lt)
        apply assumption
  unfolding u6_b_def p6_b0_def p6_b1_def consts6
       apply (simp_all add: bit_simps lt64_nobit)
  done

lemma u6_b_tail: "a < 64 \<Longrightarrow> b < 64 \<Longrightarrow> u6_b (p6_b0 a b) (p6_t1 b) = b"
  apply (rule eq6I)
         apply (rule u6_b_lt)
        apply assumption
  unfolding u6_b_def p6_b0_def p6_t1_def consts6
       apply (simp_all add: bit_simps lt64_nobit)
  done

lemma u6_c_p6: "b < 64 \<Longrightarrow> c < 64 \<Longrightarrow> u6_c (p6_b1 b c) (p6_b2 c e) = c"
  apply (rule eq6I)
         apply (rule u6_c_lt)
        apply assumption
  unfolding u6_c_def p6_b1_def p6_b2_def consts6
       apply (simp_all add: bit_simps lt64_nobit)
  done

lemma u6_c_tail: "b < 64 \<Longrightarrow> c < 64 \<Longrightarrow> u6_c (p6_b1 b c) (p6_t2 c) = c"
  apply (rule eq6I)
         apply (rule u6_c_lt)
        apply assumption
  unfolding u6_c_def p6_b1_def p6_t2_def consts6
       apply (simp_all add: bit_simps lt64_nobit)
  done

lemma u6_d_p6: "c < 64 \<Longrightarrow> e < 64 \<Longrightarrow> u6_d (p6_b2 c e) = e"
  apply (rule eq6I)
         apply (rule u6_d_lt)
        apply assumption
  unfolding u6_d_def p6_b2_def consts6
       apply (simp_all add: bit_simps lt64_nobit)
  done


lemma c255: "(255::u32) = mask 8" by (simp add: mask_eq_exp_minus_1)
lemma c3840: "(3840::u32) = push_bit 8 (mask 4)" by (simp add: mask_eq_exp_minus_1 push_bit_eq_mult)
lemma c4080: "(4080::u32) = push_bit 4 (mask 8)" by (simp add: mask_eq_exp_minus_1 push_bit_eq_mult)

lemmas consts12 = c15 c240 c255 c3840 c4080

lemma lt_pow_nobit:
  assumes "(a::u32) < 2 ^ w" "w \<le> n"
  shows "\<not> bit a n"
proof -
  from assms(1) have "take_bit w a = a"
    using less_mask_eq [of a w] by (simp add: take_bit_eq_mask)
  then have "bit a n \<longleftrightarrow> bit (take_bit w a) n" by simp
  with assms(2) show ?thesis by (simp add: bit_simps)
qed

lemma lt_powI:
  assumes "w < 32" "\<And>n. w \<le> n \<Longrightarrow> \<not> bit a n"
  shows "(a::u32) < 2 ^ w"
proof -
  have "take_bit w a = a"
  proof (rule bit_word_eqI)
    fix n :: nat
    show "bit (take_bit w a) n = bit a n"
      using assms(2) [of n] by (cases "n < w") (simp_all add: bit_simps)
  qed
  then have "a AND mask w = a" by (simp add: take_bit_eq_mask)
  moreover have "a AND mask w < 2 ^ w" by (rule and_mask_less_size) (simp add: word_size assms(1))
  ultimately show ?thesis by simp
qed

lemma lt16_nobit: "(a::u32) < 16 \<Longrightarrow> 4 \<le> n \<Longrightarrow> \<not> bit a n"
  using lt_pow_nobit [of a 4 n] by simp

lemma lt256_nobit: "(a::u32) < 256 \<Longrightarrow> 8 \<le> n \<Longrightarrow> \<not> bit a n"
  using lt_pow_nobit [of a 8 n] by simp

lemma lt4096_nobit: "(a::u32) < 4096 \<Longrightarrow> 12 \<le> n \<Longrightarrow> \<not> bit a n"
  using lt_pow_nobit [of a 12 n] by simp

lemma lt16I: "(\<And>n. 4 \<le> n \<Longrightarrow> \<not> bit a n) \<Longrightarrow> (a::u32) < 16"
  using lt_powI [of 4 a] by simp

lemma lt256I: "(\<And>n. 8 \<le> n \<Longrightarrow> \<not> bit a n) \<Longrightarrow> (a::u32) < 256"
  using lt_powI [of 8 a] by simp

lemma lt4096I: "(\<And>n. 12 \<le> n \<Longrightarrow> \<not> bit a n) \<Longrightarrow> (a::u32) < 4096"
  using lt_powI [of 12 a] by simp

lemma eq4I:
  assumes "(x::u32) < 16" "y < 16"
    "bit x 0 = bit y 0" "bit x 1 = bit y 1" "bit x 2 = bit y 2" "bit x 3 = bit y 3"
  shows "x = y"
proof (rule bit_word_eqI)
  fix n :: nat
  consider "n = 0" | "n = 1" | "n = 2" | "n = 3" | "4 \<le> n" by linarith
  then show "bit x n = bit y n"
    using assms by cases (simp_all add: lt16_nobit)
qed

lemma eq12I:
  assumes "(x::u32) < 4096" "y < 4096"
    "bit x 0 = bit y 0" "bit x 1 = bit y 1" "bit x 2 = bit y 2" "bit x 3 = bit y 3"
    "bit x 4 = bit y 4" "bit x 5 = bit y 5" "bit x 6 = bit y 6" "bit x 7 = bit y 7"
    "bit x 8 = bit y 8" "bit x 9 = bit y 9" "bit x 10 = bit y 10" "bit x 11 = bit y 11"
  shows "x = y"
proof (rule bit_word_eqI)
  fix n :: nat
  consider "n = 0" | "n = 1" | "n = 2" | "n = 3" | "n = 4" | "n = 5" | "6 \<le> n" by linarith
  then show "bit x n = bit y n"
  proof cases
    case 7
    then consider "n = 6" | "n = 7" | "n = 8" | "n = 9" | "n = 10" | "n = 11" | "12 \<le> n"
      by linarith
    then show ?thesis using assms by cases (simp_all add: lt4096_nobit)
  qed (use assms in simp_all)
qed

lemma u4_lo_lt: "u4_lo x < 16"
  unfolding u4_lo_def consts12
  by (rule lt16I) (auto simp: bit_simps)

lemma u4_hi_lt: "u4_hi x < 16"
  unfolding u4_hi_def consts12
  by (rule lt16I) (auto simp: bit_simps)

lemma u4_lo_p4_b: "a < 16 \<Longrightarrow> u4_lo (p4_b a b) = a"
  apply (rule eq4I)
       apply (rule u4_lo_lt)
      apply assumption
  unfolding u4_lo_def p4_b_def consts12
     apply (simp_all add: bit_simps lt16_nobit)
  done

lemma u4_lo_tail: "a < 16 \<Longrightarrow> u4_lo (ucast a) = a"
  apply (rule eq4I)
       apply (rule u4_lo_lt)
      apply assumption
  unfolding u4_lo_def consts12
     apply (simp_all add: bit_simps lt16_nobit)
  done

lemma u4_hi_p4_b: "a < 16 \<Longrightarrow> b < 16 \<Longrightarrow> u4_hi (p4_b a b) = b"
  apply (rule eq4I)
       apply (rule u4_hi_lt)
      apply assumption
  unfolding u4_hi_def p4_b_def consts12
     apply (simp_all add: bit_simps lt16_nobit)
  done

lemma ucast8_lt: "(ucast (x :: u8) :: u32) < 256"
  by (rule lt256I) (auto simp: bit_simps dest: bit_imp_le_length)

lemma ucast8_inv: "(a :: u32) < 256 \<Longrightarrow> (ucast (ucast a :: u8) :: u32) = a"
  by (rule bit_word_eqI) (use lt256_nobit [of a] in \<open>auto simp: bit_simps not_le [symmetric]\<close>)

lemma u12_a_lt: "u12_a x y < 4096"
  unfolding u12_a_def consts12
  by (rule lt4096I) (auto simp: bit_simps dest: bit_imp_le_length)

lemma u12_b_lt: "u12_b x y < 4096"
  unfolding u12_b_def consts12
  by (rule lt4096I) (auto simp: bit_simps dest: bit_imp_le_length)

lemma u12_a_p12: "a < 4096 \<Longrightarrow> u12_a (p12_b0 a) (p12_b1 a b) = a"
  apply (rule eq12I)
               apply (rule u12_a_lt)
              apply assumption
  unfolding u12_a_def p12_b0_def p12_b1_def consts12
             apply (simp_all add: bit_simps lt4096_nobit)
  done

lemma u12_a_tail: "a < 4096 \<Longrightarrow> u12_a (p12_b0 a) (p12_t1 a) = a"
  apply (rule eq12I)
               apply (rule u12_a_lt)
              apply assumption
  unfolding u12_a_def p12_b0_def p12_t1_def consts12
             apply (simp_all add: bit_simps lt4096_nobit)
  done

lemma u12_b_p12: "b < 4096 \<Longrightarrow> u12_b (p12_b1 a b) (p12_b2 b) = b"
  apply (rule eq12I)
               apply (rule u12_b_lt)
              apply assumption
  unfolding u12_b_def p12_b1_def p12_b2_def consts12
             apply (simp_all add: bit_simps lt4096_nobit)
  done


lemma eq8I:
  assumes "(x::u32) < 256" "y < 256"
    "bit x 0 = bit y 0" "bit x 1 = bit y 1" "bit x 2 = bit y 2" "bit x 3 = bit y 3"
    "bit x 4 = bit y 4" "bit x 5 = bit y 5" "bit x 6 = bit y 6" "bit x 7 = bit y 7"
  shows "x = y"
proof (rule bit_word_eqI)
  fix n :: nat
  consider "n = 0" | "n = 1" | "n = 2" | "n = 3" | "n = 4" | "n = 5" | "n = 6" | "n = 7" | "8 \<le> n"
    by linarith
  then show "bit x n = bit y n"
    using assms by cases (simp_all add: lt256_nobit)
qed

lemma p6_b0_value: "a < 64 \<Longrightarrow> ucast (p6_b0 a b) = a OR push_bit 6 (b AND 3)"
  apply (rule eq8I)
           apply (rule ucast8_lt)
          apply (rule lt256I)
  unfolding p6_b0_def consts6
          apply (auto simp add: bit_simps lt64_nobit)
  done

lemma p6_b1_value: "ucast (p6_b1 b c) = (drop_bit 2 b AND 15) OR push_bit 4 (c AND 15)"
  apply (rule eq8I)
           apply (rule ucast8_lt)
          apply (rule lt256I)
  unfolding p6_b1_def consts6
          apply (auto simp add: bit_simps)
  done

lemma p6_b2_value: "e < 64 \<Longrightarrow> ucast (p6_b2 c e) = (drop_bit 4 c AND 3) OR push_bit 2 e"
  apply (rule eq8I)
           apply (rule ucast8_lt)
          apply (rule lt256I)
  unfolding p6_b2_def consts6
          apply (auto simp add: bit_simps lt64_nobit)
  done

lemma p6_t1_value: "b < 64 \<Longrightarrow> ucast (p6_t1 b) = drop_bit 2 b"
  apply (rule eq8I)
           apply (rule ucast8_lt)
          apply (rule lt256I)
  unfolding p6_t1_def consts6
          apply (auto simp add: bit_simps lt64_nobit)
  done


lemma nib_lo: "a < 16 \<Longrightarrow> (ucast (a :: u32) :: u8) AND 0x0F = ucast a"
proof -
  assume a: "a < 16"
  have c: "(0x0F :: u8) = mask 4" by (simp add: mask_eq_exp_minus_1)
  show ?thesis unfolding c
    by (rule bit_word_eqI) (use lt16_nobit [OF a] in \<open>auto simp: bit_simps not_le [symmetric]\<close>)
qed

lemma nib_hi: "a < 16 \<Longrightarrow> drop_bit 4 (ucast (a :: u32) :: u8) = 0"
proof -
  assume a: "a < 16"
  show ?thesis
    by (rule bit_word_eqI) (use lt16_nobit [OF a] in \<open>auto simp: bit_simps\<close>)
qed

lemma p12_t1_hi: "drop_bit 4 (p12_t1 a) = 0"
  unfolding p12_t1_def consts12
  by (rule bit_word_eqI) (auto simp: bit_simps)


section \<open>Packing followed by unpacking\<close>


lemma pack6_unpack6:
  assumes sb: "symbolCount \<le> length symbolBuffer"
    and db: "d + packed_size 6 symbolCount \<le> length dest"
    and ob: "symbolCount \<le> length out"
    and rng: "\<And>i. i < symbolCount \<Longrightarrow> symbolBuffer ! i < 64"
  shows "\<exists>dest' out'. pack6 dest d symbolBuffer symbolCount = Some dest'
     \<and> unpack6 out dest' d symbolCount = Some out'
     \<and> length out' = length out
     \<and> (\<forall>i. i < symbolCount \<longrightarrow> out' ! i = symbolBuffer ! i)"
proof -
  from pack6_spec [OF sb db] obtain dest' where
    pk: "pack6 dest d symbolBuffer symbolCount = Some dest'"
    and len: "length dest' = length dest"
    and p0: "\<And>k. 4 * k < symbolCount \<Longrightarrow> dest' ! (d + 3 * k) =
            (if 4 * k + 1 < symbolCount then p6_b0 (symbolBuffer ! (4 * k)) (symbolBuffer ! (4 * k + 1))
             else ucast (symbolBuffer ! (4 * k)))"
    and p1: "\<And>k. 4 * k + 1 < symbolCount \<Longrightarrow> dest' ! (d + 3 * k + 1) =
            (if 4 * k + 2 < symbolCount then p6_b1 (symbolBuffer ! (4 * k + 1)) (symbolBuffer ! (4 * k + 2))
             else p6_t1 (symbolBuffer ! (4 * k + 1)))"
    and p2: "\<And>k. 4 * k + 2 < symbolCount \<Longrightarrow> dest' ! (d + 3 * k + 2) =
            (if 4 * k + 3 < symbolCount then p6_b2 (symbolBuffer ! (4 * k + 2)) (symbolBuffer ! (4 * k + 3))
             else p6_t2 (symbolBuffer ! (4 * k + 2)))"
    by blast
  from db len have "d + packed_size 6 symbolCount \<le> length dest'" by simp
  from unpack6_spec [OF ob this] obtain out' where
    up: "unpack6 out dest' d symbolCount = Some out'"
    and olen: "length out' = length out"
    and u0: "\<And>k. 4 * k < symbolCount \<Longrightarrow> out' ! (4 * k) = u6_a (dest' ! (d + 3 * k))"
    and u1: "\<And>k. 4 * k + 1 < symbolCount \<Longrightarrow>
            out' ! (4 * k + 1) = u6_b (dest' ! (d + 3 * k)) (dest' ! (d + 3 * k + 1))"
    and u2: "\<And>k. 4 * k + 2 < symbolCount \<Longrightarrow>
            out' ! (4 * k + 2) = u6_c (dest' ! (d + 3 * k + 1)) (dest' ! (d + 3 * k + 2))"
    and u3: "\<And>k. 4 * k + 3 < symbolCount \<Longrightarrow> out' ! (4 * k + 3) = u6_d (dest' ! (d + 3 * k + 2))"
    by blast
  have "out' ! i = symbolBuffer ! i" if i: "i < symbolCount" for i
  proof -
    define k where "k = i div 4"
    consider "i = 4 * k" | "i = 4 * k + 1" | "i = 4 * k + 2" | "i = 4 * k + 3"
      unfolding k_def by linarith
    then show ?thesis
    proof cases
      case 1
      with i have "4 * k < symbolCount" by simp
      with 1 show ?thesis using u0 [of k] p0 [of k] rng [of "4 * k"]
        by (simp add: u6_a_p6_b0 u6_a_tail)
    next
      case 2
      with i have h: "4 * k + 1 < symbolCount" "4 * k < symbolCount" by simp_all
      with 2 show ?thesis using u1 [of k] p0 [of k] p1 [of k] rng [of "4 * k"] rng [of "4 * k + 1"]
        by (simp add: u6_b_p6 u6_b_tail)
    next
      case 3
      with i have h: "4 * k + 2 < symbolCount" "4 * k + 1 < symbolCount" by simp_all
      with 3 show ?thesis using u2 [of k] p1 [of k] p2 [of k] rng [of "4 * k + 1"] rng [of "4 * k + 2"]
        by (simp add: u6_c_p6 u6_c_tail)
    next
      case 4
      with i have h: "4 * k + 3 < symbolCount" "4 * k + 2 < symbolCount" by simp_all
      with 4 show ?thesis using u3 [of k] p2 [of k] rng [of "4 * k + 2"] rng [of "4 * k + 3"]
        by (simp add: u6_d_p6)
    qed
  qed
  with pk up olen show ?thesis by blast
qed


lemma pack4_unpack4:
  assumes sb: "symbolCount \<le> length symbolBuffer"
    and db: "d + packed_size 4 symbolCount \<le> length dest"
    and ob: "symbolCount \<le> length out"
    and rng: "\<And>i. i < symbolCount \<Longrightarrow> symbolBuffer ! i < 16"
  shows "\<exists>dest' out'. pack4 dest d symbolBuffer symbolCount = Some dest'
     \<and> unpack4 out dest' d symbolCount = Some out'
     \<and> length out' = length out
     \<and> (\<forall>i. i < symbolCount \<longrightarrow> out' ! i = symbolBuffer ! i)"
proof -
  from pack4_spec [OF sb db] obtain dest' where
    pk: "pack4 dest d symbolBuffer symbolCount = Some dest'"
    and len: "length dest' = length dest"
    and p0: "\<And>k. 2 * k < symbolCount \<Longrightarrow> dest' ! (d + k) =
            (if 2 * k + 1 < symbolCount then p4_b (symbolBuffer ! (2 * k)) (symbolBuffer ! (2 * k + 1))
             else ucast (symbolBuffer ! (2 * k)))"
    by blast
  from db len have "d + packed_size 4 symbolCount \<le> length dest'" by simp
  from unpack4_spec [OF ob this] obtain out' where
    up: "unpack4 out dest' d symbolCount = Some out'"
    and olen: "length out' = length out"
    and u0: "\<And>k. 2 * k < symbolCount \<Longrightarrow> out' ! (2 * k) = u4_lo (dest' ! (d + k))"
    and u1: "\<And>k. 2 * k + 1 < symbolCount \<Longrightarrow> out' ! (2 * k + 1) = u4_hi (dest' ! (d + k))"
    by blast
  have "out' ! i = symbolBuffer ! i" if i: "i < symbolCount" for i
  proof -
    define k where "k = i div 2"
    consider "i = 2 * k" | "i = 2 * k + 1"
      unfolding k_def by linarith
    then show ?thesis
    proof cases
      case 1
      with i have "2 * k < symbolCount" by simp
      with 1 show ?thesis using u0 [of k] p0 [of k] rng [of "2 * k"]
        by (simp add: u4_lo_p4_b u4_lo_tail)
    next
      case 2
      with i have h: "2 * k + 1 < symbolCount" "2 * k < symbolCount" by simp_all
      with 2 show ?thesis using u1 [of k] p0 [of k] rng [of "2 * k"] rng [of "2 * k + 1"]
        by (simp add: u4_hi_p4_b)
    qed
  qed
  with pk up olen show ?thesis by blast
qed

lemma pack8_unpack8:
  assumes sb: "symbolCount \<le> length symbolBuffer"
    and db: "d + packed_size 8 symbolCount \<le> length dest"
    and ob: "symbolCount \<le> length out"
    and rng: "\<And>i. i < symbolCount \<Longrightarrow> symbolBuffer ! i < 256"
  shows "\<exists>dest' out'. pack8 dest d symbolBuffer symbolCount = Some dest'
     \<and> unpack8 out dest' d symbolCount = Some out'
     \<and> length out' = length out
     \<and> (\<forall>i. i < symbolCount \<longrightarrow> out' ! i = symbolBuffer ! i)"
proof -
  from pack8_spec [OF sb db] obtain dest' where
    pk: "pack8 dest d symbolBuffer symbolCount = Some dest'"
    and len: "length dest' = length dest"
    and p0: "\<And>j. j < symbolCount \<Longrightarrow> dest' ! (d + j) = ucast (symbolBuffer ! j)"
    by blast
  from db len have "d + packed_size 8 symbolCount \<le> length dest'" by simp
  from unpack8_spec [OF ob this] obtain out' where
    up: "unpack8 out dest' d symbolCount = Some out'"
    and olen: "length out' = length out"
    and u0: "\<And>j. j < symbolCount \<Longrightarrow> out' ! j = ucast (dest' ! (d + j))"
    by blast
  have "out' ! i = symbolBuffer ! i" if i: "i < symbolCount" for i
    using u0 [OF i] p0 [OF i] rng [OF i] by (simp add: ucast8_inv)
  with pk up olen show ?thesis by blast
qed

lemma pack12_unpack12:
  assumes sb: "symbolCount \<le> length symbolBuffer"
    and db: "d + packed_size 12 symbolCount \<le> length dest"
    and ob: "symbolCount \<le> length out"
    and rng: "\<And>i. i < symbolCount \<Longrightarrow> symbolBuffer ! i < 4096"
  shows "\<exists>dest' out'. pack12 dest d symbolBuffer symbolCount = Some dest'
     \<and> unpack12 out dest' d symbolCount = Some out'
     \<and> length out' = length out
     \<and> (\<forall>i. i < symbolCount \<longrightarrow> out' ! i = symbolBuffer ! i)"
proof -
  from pack12_spec [OF sb db] obtain dest' where
    pk: "pack12 dest d symbolBuffer symbolCount = Some dest'"
    and len: "length dest' = length dest"
    and p0: "\<And>k. 2 * k < symbolCount \<Longrightarrow> dest' ! (d + 3 * k) = p12_b0 (symbolBuffer ! (2 * k))"
    and p1: "\<And>k. 2 * k < symbolCount \<Longrightarrow> dest' ! (d + 3 * k + 1) =
            (if 2 * k + 1 < symbolCount then p12_b1 (symbolBuffer ! (2 * k)) (symbolBuffer ! (2 * k + 1))
             else p12_t1 (symbolBuffer ! (2 * k)))"
    and p2: "\<And>k. 2 * k + 1 < symbolCount \<Longrightarrow> dest' ! (d + 3 * k + 2) = p12_b2 (symbolBuffer ! (2 * k + 1))"
    by blast
  from db len have "d + packed_size 12 symbolCount \<le> length dest'" by simp
  from unpack12_spec [OF ob this] obtain out' where
    up: "unpack12 out dest' d symbolCount = Some out'"
    and olen: "length out' = length out"
    and u0: "\<And>k. 2 * k < symbolCount \<Longrightarrow>
           out' ! (2 * k) = u12_a (dest' ! (d + 3 * k)) (dest' ! (d + 3 * k + 1))"
    and u1: "\<And>k. 2 * k + 1 < symbolCount \<Longrightarrow>
           out' ! (2 * k + 1) = u12_b (dest' ! (d + 3 * k + 1)) (dest' ! (d + 3 * k + 2))"
    by blast
  have "out' ! i = symbolBuffer ! i" if i: "i < symbolCount" for i
  proof -
    define k where "k = i div 2"
    consider "i = 2 * k" | "i = 2 * k + 1"
      unfolding k_def by linarith
    then show ?thesis
    proof cases
      case 1
      with i have "2 * k < symbolCount" by simp
      with 1 show ?thesis using u0 [of k] p0 [of k] p1 [of k] rng [of "2 * k"]
        by (simp add: u12_a_p12 u12_a_tail)
    next
      case 2
      with i have h: "2 * k + 1 < symbolCount" "2 * k < symbolCount" by simp_all
      with 2 show ?thesis using u1 [of k] p1 [of k] p2 [of k] rng [of "2 * k + 1"]
        by (simp add: u12_b_p12)
    qed
  qed
  with pk up olen show ?thesis by blast
qed


section \<open>Successful runs, and what they depend on\<close>


lemma pack6_zero: "pack6 dest d symbolBuffer 0 = Some dest"
  by (simp add: pack6_def)

lemma pack4_zero: "pack4 dest d symbolBuffer 0 = Some dest"
  by (simp add: pack4_def)

lemma pack8_zero: "pack8 dest d symbolBuffer 0 = Some dest"
  by (simp add: pack8_def)

lemma pack12_zero: "pack12 dest d symbolBuffer 0 = Some dest"
  by (simp add: pack12_def)

lemma unpack6_zero: "unpack6 out packedBuffer p 0 = Some out"
  by (simp add: unpack6_def)

lemma unpack4_zero: "unpack4 out packedBuffer p 0 = Some out"
  by (simp add: unpack4_def)

lemma unpack8_zero: "unpack8 out packedBuffer p 0 = Some out"
  by (simp add: unpack8_def)

lemma unpack12_zero: "unpack12 out packedBuffer p 0 = Some out"
  by (simp add: unpack12_def)

lemma packed_size_0 [simp]: "packed_size w 0 = 0"
  by (simp add: packed_size_def)

lemma pack6_SomeE:
  assumes "pack6 dest d symbolBuffer symbolCount = Some dest'"
  shows "length dest' = length dest
     \<and> (\<forall>i. i < d \<or> d + packed_size 6 symbolCount \<le> i \<longrightarrow> dest' ! i = dest ! i)
     \<and> (\<forall>k. 4 * k < symbolCount \<longrightarrow> dest' ! (d + 3 * k) =
            (if 4 * k + 1 < symbolCount then p6_b0 (symbolBuffer ! (4 * k)) (symbolBuffer ! (4 * k + 1))
             else ucast (symbolBuffer ! (4 * k))))
     \<and> (\<forall>k. 4 * k + 1 < symbolCount \<longrightarrow> dest' ! (d + 3 * k + 1) =
            (if 4 * k + 2 < symbolCount then p6_b1 (symbolBuffer ! (4 * k + 1)) (symbolBuffer ! (4 * k + 2))
             else p6_t1 (symbolBuffer ! (4 * k + 1))))
     \<and> (\<forall>k. 4 * k + 2 < symbolCount \<longrightarrow> dest' ! (d + 3 * k + 2) =
            (if 4 * k + 3 < symbolCount then p6_b2 (symbolBuffer ! (4 * k + 2)) (symbolBuffer ! (4 * k + 3))
             else p6_t2 (symbolBuffer ! (4 * k + 2))))"
proof (cases "symbolCount = 0")
  case True
  with assms show ?thesis by (simp add: pack6_zero)
next
  case False
  with pack6_SomeD [OF assms] have "symbolCount \<le> length symbolBuffer"
    "d + packed_size 6 symbolCount \<le> length dest" by auto
  from pack6_spec [OF this] assms show ?thesis by auto
qed

lemma pack4_SomeE:
  assumes "pack4 dest d symbolBuffer symbolCount = Some dest'"
  shows "length dest' = length dest
     \<and> (\<forall>i. i < d \<or> d + packed_size 4 symbolCount \<le> i \<longrightarrow> dest' ! i = dest ! i)
     \<and> (\<forall>k. 2 * k < symbolCount \<longrightarrow> dest' ! (d + k) =
            (if 2 * k + 1 < symbolCount then p4_b (symbolBuffer ! (2 * k)) (symbolBuffer ! (2 * k + 1))
             else ucast (symbolBuffer ! (2 * k))))"
proof (cases "symbolCount = 0")
  case True
  with assms show ?thesis by (simp add: pack4_zero)
next
  case False
  with pack4_SomeD [OF assms] have "symbolCount \<le> length symbolBuffer"
    "d + packed_size 4 symbolCount \<le> length dest" by auto
  from pack4_spec [OF this] assms show ?thesis by auto
qed

lemma pack8_SomeE:
  assumes "pack8 dest d symbolBuffer symbolCount = Some dest'"
  shows "length dest' = length dest
     \<and> (\<forall>i. i < d \<or> d + packed_size 8 symbolCount \<le> i \<longrightarrow> dest' ! i = dest ! i)
     \<and> (\<forall>j < symbolCount. dest' ! (d + j) = ucast (symbolBuffer ! j))"
proof (cases "symbolCount = 0")
  case True
  with assms show ?thesis by (simp add: pack8_zero)
next
  case False
  with pack8_SomeD [OF assms] have "symbolCount \<le> length symbolBuffer"
    "d + packed_size 8 symbolCount \<le> length dest" by auto
  from pack8_spec [OF this] assms show ?thesis by auto
qed

lemma pack12_SomeE:
  assumes "pack12 dest d symbolBuffer symbolCount = Some dest'"
  shows "length dest' = length dest
     \<and> (\<forall>i. i < d \<or> d + packed_size 12 symbolCount \<le> i \<longrightarrow> dest' ! i = dest ! i)
     \<and> (\<forall>k. 2 * k < symbolCount \<longrightarrow> dest' ! (d + 3 * k) = p12_b0 (symbolBuffer ! (2 * k)))
     \<and> (\<forall>k. 2 * k < symbolCount \<longrightarrow> dest' ! (d + 3 * k + 1) =
            (if 2 * k + 1 < symbolCount then p12_b1 (symbolBuffer ! (2 * k)) (symbolBuffer ! (2 * k + 1))
             else p12_t1 (symbolBuffer ! (2 * k))))
     \<and> (\<forall>k. 2 * k + 1 < symbolCount \<longrightarrow> dest' ! (d + 3 * k + 2) = p12_b2 (symbolBuffer ! (2 * k + 1)))"
proof (cases "symbolCount = 0")
  case True
  with assms show ?thesis by (simp add: pack12_zero)
next
  case False
  with pack12_SomeD [OF assms] have "symbolCount \<le> length symbolBuffer"
    "d + packed_size 12 symbolCount \<le> length dest" by auto
  from pack12_spec [OF this] assms show ?thesis by auto
qed

lemma unpack6_SomeE:
  assumes "unpack6 symbolBuffer packedBuffer p symbolCount = Some out"
  shows "length out = length symbolBuffer
     \<and> (\<forall>i. symbolCount \<le> i \<longrightarrow> out ! i = symbolBuffer ! i)
     \<and> (\<forall>k. 4 * k < symbolCount \<longrightarrow> out ! (4 * k) = u6_a (packedBuffer ! (p + 3 * k)))
     \<and> (\<forall>k. 4 * k + 1 < symbolCount \<longrightarrow>
            out ! (4 * k + 1) = u6_b (packedBuffer ! (p + 3 * k)) (packedBuffer ! (p + 3 * k + 1)))
     \<and> (\<forall>k. 4 * k + 2 < symbolCount \<longrightarrow>
            out ! (4 * k + 2) = u6_c (packedBuffer ! (p + 3 * k + 1)) (packedBuffer ! (p + 3 * k + 2)))
     \<and> (\<forall>k. 4 * k + 3 < symbolCount \<longrightarrow> out ! (4 * k + 3) = u6_d (packedBuffer ! (p + 3 * k + 2)))"
proof (cases "symbolCount = 0")
  case True
  with assms show ?thesis by (simp add: unpack6_zero)
next
  case False
  with unpack6_SomeD [OF assms] have "symbolCount \<le> length symbolBuffer"
    "p + packed_size 6 symbolCount \<le> length packedBuffer" by auto
  from unpack6_spec [OF this] assms show ?thesis by auto
qed

lemma unpack4_SomeE:
  assumes "unpack4 symbolBuffer packedBuffer p symbolCount = Some out"
  shows "length out = length symbolBuffer
     \<and> (\<forall>i. symbolCount \<le> i \<longrightarrow> out ! i = symbolBuffer ! i)
     \<and> (\<forall>k. 2 * k < symbolCount \<longrightarrow> out ! (2 * k) = u4_lo (packedBuffer ! (p + k)))
     \<and> (\<forall>k. 2 * k + 1 < symbolCount \<longrightarrow> out ! (2 * k + 1) = u4_hi (packedBuffer ! (p + k)))"
proof (cases "symbolCount = 0")
  case True
  with assms show ?thesis by (simp add: unpack4_zero)
next
  case False
  with unpack4_SomeD [OF assms] have "symbolCount \<le> length symbolBuffer"
    "p + packed_size 4 symbolCount \<le> length packedBuffer" by auto
  from unpack4_spec [OF this] assms show ?thesis by auto
qed

lemma unpack8_SomeE:
  assumes "unpack8 symbolBuffer packedBuffer p symbolCount = Some out"
  shows "length out = length symbolBuffer
     \<and> (\<forall>i. symbolCount \<le> i \<longrightarrow> out ! i = symbolBuffer ! i)
     \<and> (\<forall>j < symbolCount. out ! j = ucast (packedBuffer ! (p + j)))"
proof (cases "symbolCount = 0")
  case True
  with assms show ?thesis by (simp add: unpack8_zero)
next
  case False
  with unpack8_SomeD [OF assms] have "symbolCount \<le> length symbolBuffer"
    "p + packed_size 8 symbolCount \<le> length packedBuffer" by auto
  from unpack8_spec [OF this] assms show ?thesis by auto
qed

lemma unpack12_SomeE:
  assumes "unpack12 symbolBuffer packedBuffer p symbolCount = Some out"
  shows "length out = length symbolBuffer
     \<and> (\<forall>i. symbolCount \<le> i \<longrightarrow> out ! i = symbolBuffer ! i)
     \<and> (\<forall>k. 2 * k < symbolCount \<longrightarrow>
           out ! (2 * k) = u12_a (packedBuffer ! (p + 3 * k)) (packedBuffer ! (p + 3 * k + 1)))
     \<and> (\<forall>k. 2 * k + 1 < symbolCount \<longrightarrow>
           out ! (2 * k + 1) = u12_b (packedBuffer ! (p + 3 * k + 1)) (packedBuffer ! (p + 3 * k + 2)))"
proof (cases "symbolCount = 0")
  case True
  with assms show ?thesis by (simp add: unpack12_zero)
next
  case False
  with unpack12_SomeD [OF assms] have "symbolCount \<le> length symbolBuffer"
    "p + packed_size 12 symbolCount \<le> length packedBuffer" by auto
  from unpack12_spec [OF this] assms show ?thesis by auto
qed


lemma packed_size_less_iff: "x < packed_size w n \<longleftrightarrow> 8 * x + 8 \<le> n * w + 7"
proof -
  have "x < packed_size w n \<longleftrightarrow> Suc x \<le> (n * w + 7) div 8"
    by (simp add: packed_size_def Suc_le_eq)
  also have "\<dots> \<longleftrightarrow> Suc x * 8 \<le> n * w + 7"
    by (rule less_eq_div_iff_mult_less_eq) simp
  finally show ?thesis by (simp add: mult.commute)
qed

lemma idx6: "3 * k + m < packed_size 6 n \<Longrightarrow> 4 * k + m < n"
  unfolding packed_size_less_iff by auto

lemma idx6': "4 * k + m < n \<Longrightarrow> m < 3 \<Longrightarrow> 3 * k + m < packed_size 6 n"
  unfolding packed_size_less_iff by auto

lemma idx4: "j < packed_size 4 n \<Longrightarrow> 2 * j < n"
  unfolding packed_size_less_iff by auto

lemma idx4': "2 * k + m < n \<Longrightarrow> k < packed_size 4 n"
  unfolding packed_size_less_iff by auto

lemma idx12: "3 * k + m < packed_size 12 n \<Longrightarrow> 2 * k < n \<and> (m = 2 \<longrightarrow> 2 * k + 1 < n)"
  unfolding packed_size_less_iff by auto

lemma idx12': "2 * k < n \<Longrightarrow> 3 * k + 1 < packed_size 12 n"
  "2 * k + 1 < n \<Longrightarrow> 3 * k + 2 < packed_size 12 n"
  unfolding packed_size_less_iff by simp_all


lemma split3: obtains k m :: nat where "j = 3 * k + m" "m = 0 \<or> m = 1 \<or> m = 2"
proof -
  have a: "j = 3 * (j div 3) + j mod 3" by simp
  have b: "j mod 3 = 0 \<or> j mod 3 = 1 \<or> j mod 3 = 2" by linarith
  show ?thesis by (rule that [OF a b])
qed

lemma split2: obtains k m :: nat where "j = 2 * k + m" "m = 0 \<or> m = 1"
proof -
  have a: "j = 2 * (j div 2) + j mod 2" by simp
  have b: "j mod 2 = 0 \<or> j mod 2 = 1" by linarith
  show ?thesis by (rule that [OF a b])
qed

lemma split4: obtains k m :: nat where "j = 4 * k + m" "m = 0 \<or> m = 1 \<or> m = 2 \<or> m = 3"
proof -
  have a: "j = 4 * (j div 4) + j mod 4" by simp
  have b: "j mod 4 = 0 \<or> j mod 4 = 1 \<or> j mod 4 = 2 \<or> j mod 4 = 3" by linarith
  show ?thesis by (rule that [OF a b])
qed

lemma pack6_determined:
  assumes 1: "pack6 dest d symbolBuffer symbolCount = Some dest'"
    and 2: "pack6 dest2 d symbolBuffer symbolCount = Some dest2'"
    and j: "j < packed_size 6 symbolCount"
  shows "dest' ! (d + j) = dest2' ! (d + j)"
proof -
  obtain k m where jk: "j = 3 * k + m" and m: "m = 0 \<or> m = 1 \<or> m = 2" by (rule split3)
  from idx6 [OF j [unfolded jk]] have v: "4 * k + m < symbolCount" .
  from m show ?thesis
  proof (elim disjE)
    assume "m = 0"
    with v jk pack6_SomeE [OF 1] pack6_SomeE [OF 2] show ?thesis by simp
  next
    assume "m = 1"
    with v jk pack6_SomeE [OF 1] pack6_SomeE [OF 2] show ?thesis by (simp add: add.assoc)
  next
    assume "m = 2"
    with v jk pack6_SomeE [OF 1] pack6_SomeE [OF 2] show ?thesis by (simp add: add.assoc)
  qed
qed

lemma pack4_determined:
  assumes 1: "pack4 dest d symbolBuffer symbolCount = Some dest'"
    and 2: "pack4 dest2 d symbolBuffer symbolCount = Some dest2'"
    and j: "j < packed_size 4 symbolCount"
  shows "dest' ! (d + j) = dest2' ! (d + j)"
  using idx4 [OF j] pack4_SomeE [OF 1] pack4_SomeE [OF 2] by simp

lemma pack8_determined:
  assumes 1: "pack8 dest d symbolBuffer symbolCount = Some dest'"
    and 2: "pack8 dest2 d symbolBuffer symbolCount = Some dest2'"
    and j: "j < packed_size 8 symbolCount"
  shows "dest' ! (d + j) = dest2' ! (d + j)"
  using j pack8_SomeE [OF 1] pack8_SomeE [OF 2] by (simp add: packed_size_8)

lemma pack12_determined:
  assumes 1: "pack12 dest d symbolBuffer symbolCount = Some dest'"
    and 2: "pack12 dest2 d symbolBuffer symbolCount = Some dest2'"
    and j: "j < packed_size 12 symbolCount"
  shows "dest' ! (d + j) = dest2' ! (d + j)"
proof -
  obtain k m where jk: "j = 3 * k + m" and m: "m = 0 \<or> m = 1 \<or> m = 2" by (rule split3)
  from idx12 [OF j [unfolded jk]] have v: "2 * k < symbolCount" "m = 2 \<longrightarrow> 2 * k + 1 < symbolCount"
    by auto
  from m show ?thesis
  proof (elim disjE)
    assume "m = 0"
    with v jk pack12_SomeE [OF 1] pack12_SomeE [OF 2] show ?thesis by simp
  next
    assume "m = 1"
    with v jk pack12_SomeE [OF 1] pack12_SomeE [OF 2] show ?thesis by (simp add: add.assoc)
  next
    assume "m = 2"
    with v jk pack12_SomeE [OF 1] pack12_SomeE [OF 2] show ?thesis by (simp add: add.assoc)
  qed
qed

lemma unpack6_determined:
  assumes 1: "unpack6 out packedBuffer p symbolCount = Some o1"
    and 2: "unpack6 out2 packedBuffer2 p symbolCount = Some o2"
    and ag: "\<And>j. j < packed_size 6 symbolCount \<Longrightarrow> packedBuffer2 ! (p + j) = packedBuffer ! (p + j)"
    and i: "i < symbolCount"
  shows "o1 ! i = o2 ! i"
proof -
  obtain k m where ik: "i = 4 * k + m" and m: "m = 0 \<or> m = 1 \<or> m = 2 \<or> m = 3" by (rule split4)
  from m show ?thesis
  proof (elim disjE)
    assume m: "m = 0"
    with i ik have "4 * k + 0 < symbolCount" by simp
    from idx6' [OF this] have "packedBuffer2 ! (p + 3 * k) = packedBuffer ! (p + 3 * k)"
      using ag [of "3 * k"] by simp
    with m i ik unpack6_SomeE [OF 1] unpack6_SomeE [OF 2] show ?thesis by simp
  next
    assume m: "m = 1"
    with i ik have v: "4 * k + 0 < symbolCount" "4 * k + 1 < symbolCount" by simp_all
    from idx6' [OF v(1)] idx6' [OF v(2)]
    have "packedBuffer2 ! (p + 3 * k) = packedBuffer ! (p + 3 * k)"
      "packedBuffer2 ! (p + 3 * k + 1) = packedBuffer ! (p + 3 * k + 1)"
      using ag [of "3 * k"] ag [of "3 * k + 1"] by (simp_all add: add.assoc)
    with m i ik unpack6_SomeE [OF 1] unpack6_SomeE [OF 2] show ?thesis by simp
  next
    assume m: "m = 2"
    with i ik have v: "4 * k + 1 < symbolCount" "4 * k + 2 < symbolCount" by simp_all
    from idx6' [OF v(1)] idx6' [OF v(2)]
    have "packedBuffer2 ! (p + 3 * k + 1) = packedBuffer ! (p + 3 * k + 1)"
      "packedBuffer2 ! (p + 3 * k + 2) = packedBuffer ! (p + 3 * k + 2)"
      using ag [of "3 * k + 1"] ag [of "3 * k + 2"] by (simp_all add: add.assoc)
    with m i ik unpack6_SomeE [OF 1] unpack6_SomeE [OF 2] show ?thesis by simp
  next
    assume m: "m = 3"
    with i ik have v: "4 * k + 2 < symbolCount" "4 * k + 3 < symbolCount" by simp_all
    from idx6' [OF v(1)]
    have "packedBuffer2 ! (p + 3 * k + 2) = packedBuffer ! (p + 3 * k + 2)"
      using ag [of "3 * k + 2"] by (simp_all add: add.assoc)
    with m i ik unpack6_SomeE [OF 1] unpack6_SomeE [OF 2] show ?thesis by simp
  qed
qed

lemma unpack4_determined:
  assumes 1: "unpack4 out packedBuffer p symbolCount = Some o1"
    and 2: "unpack4 out2 packedBuffer2 p symbolCount = Some o2"
    and ag: "\<And>j. j < packed_size 4 symbolCount \<Longrightarrow> packedBuffer2 ! (p + j) = packedBuffer ! (p + j)"
    and i: "i < symbolCount"
  shows "o1 ! i = o2 ! i"
proof -
  obtain k m where ik: "i = 2 * k + m" and m: "m = 0 \<or> m = 1" by (rule split2)
  from i ik have "2 * k + m < symbolCount" by simp
  from idx4' [OF this] have e: "packedBuffer2 ! (p + k) = packedBuffer ! (p + k)" by (rule ag)
  from m show ?thesis
  proof (elim disjE)
    assume m: "m = 0"
    with e i ik unpack4_SomeE [OF 1] unpack4_SomeE [OF 2] show ?thesis by simp
  next
    assume m: "m = 1"
    with e i ik unpack4_SomeE [OF 1] unpack4_SomeE [OF 2] show ?thesis by simp
  qed
qed

lemma unpack8_determined:
  assumes 1: "unpack8 out packedBuffer p symbolCount = Some o1"
    and 2: "unpack8 out2 packedBuffer2 p symbolCount = Some o2"
    and ag: "\<And>j. j < packed_size 8 symbolCount \<Longrightarrow> packedBuffer2 ! (p + j) = packedBuffer ! (p + j)"
    and i: "i < symbolCount"
  shows "o1 ! i = o2 ! i"
  using i ag [of i] unpack8_SomeE [OF 1] unpack8_SomeE [OF 2] by (simp add: packed_size_8)

lemma unpack12_determined:
  assumes 1: "unpack12 out packedBuffer p symbolCount = Some o1"
    and 2: "unpack12 out2 packedBuffer2 p symbolCount = Some o2"
    and ag: "\<And>j. j < packed_size 12 symbolCount \<Longrightarrow> packedBuffer2 ! (p + j) = packedBuffer ! (p + j)"
    and i: "i < symbolCount"
  shows "o1 ! i = o2 ! i"
proof -
  obtain k m where ik: "i = 2 * k + m" and m: "m = 0 \<or> m = 1" by (rule split2)
  from m show ?thesis
  proof (elim disjE)
    assume m: "m = 0"
    with i ik have v: "2 * k < symbolCount" by simp
    from idx12' (1) [OF v] have b: "3 * k + 1 < packed_size 12 symbolCount" .
    then have "3 * k < packed_size 12 symbolCount" by simp
    with b have "packedBuffer2 ! (p + 3 * k) = packedBuffer ! (p + 3 * k)"
      "packedBuffer2 ! (p + 3 * k + 1) = packedBuffer ! (p + 3 * k + 1)"
      using ag [of "3 * k"] ag [of "3 * k + 1"] by (simp_all add: add.assoc)
    with m i ik unpack12_SomeE [OF 1] unpack12_SomeE [OF 2] show ?thesis by simp
  next
    assume m: "m = 1"
    with i ik have v: "2 * k + 1 < symbolCount" by simp
    from idx12' (2) [OF v] have b: "3 * k + 2 < packed_size 12 symbolCount" .
    then have "3 * k + 1 < packed_size 12 symbolCount" by simp
    with b have "packedBuffer2 ! (p + 3 * k + 1) = packedBuffer ! (p + 3 * k + 1)"
      "packedBuffer2 ! (p + 3 * k + 2) = packedBuffer ! (p + 3 * k + 2)"
      using ag [of "3 * k + 1"] ag [of "3 * k + 2"] by (simp_all add: add.assoc)
    with m i ik unpack12_SomeE [OF 1] unpack12_SomeE [OF 2] show ?thesis by simp
  qed
qed


section \<open>The column: helper facts\<close>


lemma shl_int_small: "unat b < 31 \<Longrightarrow> shl_int b = Some (2 ^ unat b)"
proof -
  assume b: "unat b < 31"
  define n where "n = unat b"
  have n: "n < 31" using b by (simp add: n_def)
  have u: "uint (2 ^ n :: 32 word) = 2 ^ n"
    using n by (intro uint_2p) (simp add: word_gt_0 exp_eq_zero_iff)
  have "(2 :: int) ^ n < 2 ^ 31" using n by (intro power_strict_increasing) simp_all
  moreover have "- (2 ^ 31) \<le> (2 :: int) ^ n" by (rule order_trans [of _ 0]) simp_all
  ultimately have "signed_take_bit 31 ((2 :: int) ^ n) = 2 ^ n"
    by (rule signed_take_bit_int_eq_self [rotated])
  then have "sint (push_bit n (1 :: 32 word)) = (2 :: int) ^ n"
    by (simp add: sint_uint push_bit_eq_mult u)
  with b show ?thesis by (simp add: shl_int_def n_def)
qed

lemma fold_symbolsPerCell:
  assumes "m_symbolsPerCell st < 2 ^ 32"
  shows "fold mul_symbolsPerCell xs st
     = st\<lparr>m_symbolsPerCell := (m_symbolsPerCell st * prod_list xs) mod 2 ^ 32\<rparr>"
  using assms
proof (induction xs arbitrary: st)
  case Nil
  then show ?case by simp
next
  case (Cons x xs)
  have "m_symbolsPerCell (mul_symbolsPerCell x st) < 2 ^ 32"
    by (simp add: mul_symbolsPerCell_def)
  from Cons.IH [OF this] show ?case
    by (simp add: mul_symbolsPerCell_def mod_mult_left_eq mult.assoc)
qed

lemma length_resize [simp]: "length (resize n xs) = n"
  by (simp add: resize_def)


lemma Prepare_zero:
  "m_bitsPerSymbol st = 0 \<Longrightarrow>
     Prepare uninit st = (Some (OffringaStManError ''bitsPerSymbol not initialized in OffringaWeightCol''), st)"
  by (simp add: Prepare_def)

lemma Prepare_error_zero:
  assumes "Prepare uninit st = (Some (OffringaStManError msg), st')"
  shows "m_bitsPerSymbol st = 0"
  using assms
  by (auto simp: Prepare_def Let_def split: if_splits option.splits)

lemma Prepare_ok:
  assumes wf: "heap_ok st" and nz: "m_bitsPerSymbol st \<noteq> 0" and lt: "unat (m_bitsPerSymbol st) < 31"
  shows "\<exists>st' e pb buf. Prepare uninit st = (None, st')
     \<and> m_symbolsPerCell st' = (prod_list (m_shape st) mod 2 ^ 32)
     \<and> m_encoder st' = Some e \<and> encoders st' e = Some (2 ^ unat (m_bitsPerSymbol st))
     \<and> m_packBuffer st' = Some pb \<and> arrays st' pb = Some buf
     \<and> length buf = sizeof_float + ((prod_list (m_shape st) mod 2 ^ 32) * unat (m_bitsPerSymbol st) + 7) div 8
     \<and> length buf = Stride st'
     \<and> length (m_symbolBuffer st') = (prod_list (m_shape st) mod 2 ^ 32)
     \<and> length (m_dataCopyBuffer st') = (prod_list (m_shape st) mod 2 ^ 32)
     \<and> dom (encoders st') = dom (encoders st) - set_option (m_encoder st) \<union> {e}
     \<and> dom (arrays st') = dom (arrays st) - set_option (m_packBuffer st) \<union> {pb}
     \<and> e \<notin> dom (encoders st) \<and> pb \<notin> dom (arrays st)
     \<and> m_bitsPerSymbol st' = m_bitsPerSymbol st \<and> m_shape st' = m_shape st
     \<and> storage st' = storage st
     \<and> heap_ok st'"
proof -
  define st1 where "st1 = (case m_encoder st of None \<Rightarrow> st
       | Some a \<Rightarrow> st\<lparr>encoders := (encoders st)(a := None)\<rparr>)"
  have d1: "delete_encoder st = Some st1"
    using wf by (auto simp: delete_encoder_def st1_def heap_ok_def split: option.splits)
  define n :: int where "n = 2 ^ unat (m_bitsPerSymbol st)"
  have b1: "m_bitsPerSymbol st1 = m_bitsPerSymbol st" by (simp add: st1_def split: option.splits)
  have sh: "shl_int (m_bitsPerSymbol st1) = Some n"
    unfolding b1 n_def by (rule shl_int_small [OF lt])
  define st3 where "st3 = (new_encoder n st1)\<lparr>m_symbolsPerCell := (prod_list (m_shape st) mod 2 ^ 32)\<rparr>"
  have f: "fold mul_symbolsPerCell
       (m_shape ((new_encoder n st1)\<lparr>m_symbolsPerCell := 1\<rparr>)) ((new_encoder n st1)\<lparr>m_symbolsPerCell := 1\<rparr>) = st3"
    by (subst fold_symbolsPerCell) (simp_all add: st3_def new_encoder_def st1_def split: option.splits)
  define st4 where "st4 = (case m_packBuffer st of None \<Rightarrow> st3
       | Some a \<Rightarrow> st3\<lparr>arrays := (arrays st3)(a := None)\<rparr>)"
  have d4: "delete_packBuffer st3 = Some st4"
    using wf by (auto simp: delete_packBuffer_def st4_def st3_def new_encoder_def st1_def heap_ok_def
        split: option.splits)
  define st' where "st' = (let st = new_packBuffer uninit (Stride st4) st4;
                        st = st\<lparr>m_symbolBuffer := resize (m_symbolsPerCell st) (m_symbolBuffer st)\<rparr>;
                        st = st\<lparr>m_dataCopyBuffer := resize (m_symbolsPerCell st) (m_dataCopyBuffer st)\<rparr>
                    in st)"
  have P: "Prepare uninit st = (None, st')"
    using nz wf shl_int_small [OF lt]
    by (cases "m_encoder st"; cases "m_packBuffer st")
      (auto simp: Prepare_def Let_def delete_encoder_def delete_packBuffer_def fold_symbolsPerCell
        st'_def st4_def st3_def st1_def n_def new_encoder_def heap_ok_def)
  have lt_next: "a < next_addr st" if "a \<in> dom (encoders st) \<union> dom (arrays st)" for a
    using wf that unfolding heap_ok_def by blast
  have fresh: "next_addr st \<notin> dom (encoders st)" "next_addr st \<notin> dom (arrays st)"
    "Suc (next_addr st) \<notin> dom (arrays st)"
    using lt_next [of "next_addr st"] lt_next [of "Suc (next_addr st)"] by auto
  have F1: "encoders st' = (case m_encoder st of None \<Rightarrow> encoders st
       | Some a \<Rightarrow> (encoders st)(a := None))(next_addr st \<mapsto> n)"
    by (simp add: st'_def Let_def new_packBuffer_def st4_def st3_def new_encoder_def st1_def
        split: option.splits)
  have F2: "arrays st' = (case m_packBuffer st of None \<Rightarrow> arrays st
       | Some a \<Rightarrow> (arrays st)(a := None))(Suc (next_addr st) \<mapsto> map uninit [0..<Stride st4])"
    by (simp add: st'_def Let_def new_packBuffer_def st4_def st3_def new_encoder_def st1_def
        split: option.splits)
  have F3: "m_encoder st' = Some (next_addr st)" "m_packBuffer st' = Some (Suc (next_addr st))"
    "next_addr st' = Suc (Suc (next_addr st))" "m_symbolsPerCell st' = (prod_list (m_shape st) mod 2 ^ 32)"
    "m_bitsPerSymbol st' = m_bitsPerSymbol st" "m_shape st' = m_shape st" "storage st' = storage st"
    "length (m_symbolBuffer st') = (prod_list (m_shape st) mod 2 ^ 32)"
    "length (m_dataCopyBuffer st') = (prod_list (m_shape st) mod 2 ^ 32)"
    by (simp_all add: st'_def Let_def new_packBuffer_def st4_def st3_def new_encoder_def st1_def
        split: option.splits)
  have F4: "m_symbolsPerCell st4 = (prod_list (m_shape st) mod 2 ^ 32)" "m_bitsPerSymbol st4 = m_bitsPerSymbol st"
    by (simp_all add: st4_def st3_def new_encoder_def st1_def split: option.splits)
  have S: "Stride st' = Stride st4" by (simp add: Stride_def F3 F4)
  have D1: "dom (encoders st') = dom (encoders st) - set_option (m_encoder st) \<union> {next_addr st}"
    unfolding F1 by (cases "m_encoder st") auto
  have D2: "dom (arrays st') = dom (arrays st) - set_option (m_packBuffer st) \<union> {Suc (next_addr st)}"
    unfolding F2 by (cases "m_packBuffer st") auto
  have W: "heap_ok st'"
    unfolding heap_ok_def D1 D2 F3 using lt_next by (auto simp: less_Suc_eq)
  have L: "length (map uninit [0..<Stride st4]) =
      sizeof_float + ((prod_list (m_shape st) mod 2 ^ 32) * unat (m_bitsPerSymbol st) + 7) div 8"
    by (simp add: Stride_def F4)
  have E: "encoders st' (next_addr st) = Some (2 ^ unat (m_bitsPerSymbol st))"
    unfolding F1 by (simp add: n_def)
  have A: "arrays st' (Suc (next_addr st)) = Some (map uninit [0..<Stride st4])"
    unfolding F2 by simp
  have L2: "length (map uninit [0..<Stride st4]) = Stride st'" by (simp add: S)
  from P F3 E A L L2 D1 D2 fresh W show ?thesis by blast
qed


lemma pack_frame:
  assumes "pack b dest d symbols count = Some dest'"
  shows "length dest' = length dest \<and> (\<forall>i < d. dest' ! i = dest ! i)"
  using assms pack4_SomeE [of dest d symbols count dest'] pack6_SomeE [of dest d symbols count dest']
    pack8_SomeE [of dest d symbols count dest'] pack12_SomeE [of dest d symbols count dest']
  by (auto simp: pack_def split: if_splits)

lemma unat_supported:
  "b \<in> {4, 6, 8, 12} \<Longrightarrow> unat (b :: u32) \<in> {4, 6, 8, 12}"
  by auto

lemma pack_supported_Some:
  assumes b: "b \<in> {4, 6, 8, 12}"
    and sb: "count \<le> length symbols"
    and db: "d + packed_size (unat b) count \<le> length dest"
  shows "\<exists>dest'. pack b dest d symbols count = Some dest'"
proof -
  from b consider "b = 4" | "b = 6" | "b = 8" | "b = 12" by auto
  then show ?thesis
  proof cases
    case 1
    with db have "d + packed_size 4 count \<le> length dest" by simp
    from pack4_spec [OF sb this] 1 show ?thesis by (auto simp: pack_def)
  next
    case 2
    with db have "d + packed_size 6 count \<le> length dest" by simp
    from pack6_spec [OF sb this] 2 show ?thesis by (auto simp: pack_def)
  next
    case 3
    with db have "d + packed_size 8 count \<le> length dest" by simp
    from pack8_spec [OF sb this] 3 show ?thesis by (auto simp: pack_def)
  next
    case 4
    with db have "d + packed_size 12 count \<le> length dest" by simp
    from pack12_spec [OF sb this] 4 show ?thesis by (auto simp: pack_def)
  qed
qed

lemma unpack_supported_Some:
  assumes b: "b \<in> {4, 6, 8, 12}"
    and ob: "count \<le> length out"
    and pb: "p + packed_size (unat b) count \<le> length packed"
  shows "\<exists>out'. unpack b out packed p count = Some out' \<and> length out' = length out"
proof -
  from b consider "b = 4" | "b = 6" | "b = 8" | "b = 12" by auto
  then show ?thesis
  proof cases
    case 1
    with pb have "p + packed_size 4 count \<le> length packed" by simp
    from unpack4_spec [OF ob this] 1 show ?thesis by (auto simp: unpack_def)
  next
    case 2
    with pb have "p + packed_size 6 count \<le> length packed" by simp
    from unpack6_spec [OF ob this] 2 show ?thesis by (auto simp: unpack_def)
  next
    case 3
    with pb have "p + packed_size 8 count \<le> length packed" by simp
    from unpack8_spec [OF ob this] 3 show ?thesis by (auto simp: unpack_def)
  next
    case 4
    with pb have "p + packed_size 12 count \<le> length packed" by simp
    from unpack12_spec [OF ob this] 4 show ?thesis by (auto simp: unpack_def)
  qed
qed

lemma copy_in_Some:
  "j + length xs \<le> length buf \<Longrightarrow> \<exists>buf'. copy_in xs j buf = Some buf' \<and> length buf' = length buf"
  by (induction xs j buf rule: copy_in.induct) (auto simp: store_def)

lemma copy_in_length:
  "copy_in xs j buf = Some buf' \<Longrightarrow> length buf' = length buf"
  by (induction xs j buf rule: copy_in.induct) (auto simp: store_def bind_eq_Some_conv split: if_splits)

lemma copy_out_Some:
  "j + n \<le> length src \<Longrightarrow> j + n \<le> length dst \<Longrightarrow> \<exists>dst'. copy_out n j src dst = Some dst'"
  by (induction n arbitrary: j dst) (auto simp: load_def store_def)

lemma length_float_bytes [simp]: "length (float_bytes x) = 4"
  by (simp add: float_bytes_def)

lemma Stride_eq: "Stride st = sizeof_float + packed_size (unat (m_bitsPerSymbol st)) (m_symbolsPerCell st)"
  by (simp add: Stride_def packed_size_def)


lemma Prepare_prepared:
  assumes "Prepare uninit st0 = (None, st)"
  shows "prepared st"
proof -
  from assms obtain st1 n st4 spc where
    "delete_packBuffer ((new_encoder n st1)\<lparr>m_symbolsPerCell := spc\<rparr>) = Some st4"
    and st: "st = (let st = new_packBuffer uninit (Stride st4) st4;
                        st = st\<lparr>m_symbolBuffer := resize (m_symbolsPerCell st) (m_symbolBuffer st)\<rparr>;
                        st = st\<lparr>m_dataCopyBuffer := resize (m_symbolsPerCell st) (m_dataCopyBuffer st)\<rparr>
                    in st)"
    by (auto simp: Prepare_def Let_def fold_symbolsPerCell split: if_splits option.splits)
  then have a: "m_encoder st4 = Some (next_addr st1)" "encoders st4 (next_addr st1) = Some n"
    "next_addr st4 = Suc (next_addr st1)"
    by (auto simp: delete_packBuffer_def new_encoder_def split: option.splits if_splits)
  show ?thesis
    unfolding prepared_def
    apply (rule exI [of _ "next_addr st1"], rule exI [of _ n], rule exI [of _ "Suc (next_addr st1)"],
        rule exI [of _ "map uninit [0..<Stride st4]"])
    using a by (simp add: st Let_def new_packBuffer_def Stride_def)
qed


lemma put_layout:
  assumes pr: "prepared st" and put: "putArrayfloatV c rowNr dataPtr st = Some st'"
  shows "\<exists>e n pb old dcb scale syms cell.
       m_encoder st = Some e \<and> encoders st e = Some n
     \<and> m_packBuffer st = Some pb \<and> arrays st pb = Some old
     \<and> copy_in dataPtr 0 (m_dataCopyBuffer st) = Some dcb
     \<and> Encode c n dcb (m_symbolBuffer st) = (scale, syms)
     \<and> pack (m_bitsPerSymbol st) (float_bytes scale @ drop sizeof_float old) sizeof_float syms
          (m_symbolsPerCell st) = Some cell
     \<and> length cell = Stride st
     \<and> take sizeof_float cell = float_bytes scale
     \<and> arrays st' pb = Some cell \<and> storage st' rowNr = Some cell
     \<and> m_symbolBuffer st' = syms \<and> m_dataCopyBuffer st' = dcb
     \<and> m_bitsPerSymbol st' = m_bitsPerSymbol st \<and> m_symbolsPerCell st' = m_symbolsPerCell st
     \<and> prepared st'"
proof -
  from pr obtain e n pb old where
    e: "m_encoder st = Some e" "encoders st e = Some n"
    and pb: "m_packBuffer st = Some pb" "arrays st pb = Some old" and lo: "length old = Stride st"
    unfolding prepared_def by blast
  from put obtain dcb where ci: "copy_in dataPtr 0 (m_dataCopyBuffer st) = Some dcb"
    by (auto simp: putArrayfloatV_def bind_eq_Some_conv)
  obtain scale syms where en: "Encode c n dcb (m_symbolBuffer st) = (scale, syms)"
    by (cases "Encode c n dcb (m_symbolBuffer st)")
  have s4: "sizeof_float \<le> length old" using lo by (simp add: Stride_def)
  define buf where "buf = float_bytes scale @ drop sizeof_float old"
  have lb: "length buf = Stride st" using s4 lo by (simp add: buf_def sizeof_float_def)
  from put ci e pb en s4 obtain cell where
    pk: "pack (m_bitsPerSymbol st) buf sizeof_float syms (m_symbolsPerCell st) = Some cell"
    and wr: "writeCompressedData rowNr cell
       (st\<lparr>m_dataCopyBuffer := dcb, m_symbolBuffer := syms, arrays := (arrays st)(pb \<mapsto> cell)\<rparr>) = Some st'"
    by (auto simp: putArrayfloatV_def Let_def bind_eq_Some_conv buf_def split: if_splits)
  from pack_frame [OF pk] have lc: "length cell = length buf"
    and fr: "\<And>i. i < sizeof_float \<Longrightarrow> cell ! i = buf ! i" by auto
  have tk: "take sizeof_float cell = float_bytes scale"
  proof (rule nth_equalityI)
    show "length (take sizeof_float cell) = length (float_bytes scale)"
      using lc lb by (simp add: sizeof_float_def Stride_def)
    fix i assume "i < length (take sizeof_float cell)"
    then have i: "i < sizeof_float" by simp
    with fr [OF i] show "take sizeof_float cell ! i = float_bytes scale ! i"
      by (simp add: buf_def nth_append sizeof_float_def)
  qed
  have S: "Stride (st\<lparr>m_dataCopyBuffer := dcb, m_symbolBuffer := syms, arrays := (arrays st)(pb \<mapsto> cell)\<rparr>)
      = Stride st" by (simp add: Stride_def)
  from wr lc lb have st': "st' = st\<lparr>m_dataCopyBuffer := dcb, m_symbolBuffer := syms,
      arrays := (arrays st)(pb \<mapsto> cell), storage := (storage st)(rowNr \<mapsto> cell)\<rparr>"
    by (auto simp: writeCompressedData_def S split: if_splits)
  have p': "prepared st'"
    unfolding prepared_def st' using e pb lc lb by (simp add: Stride_def)
  have a': "arrays st' pb = Some cell" "storage st' rowNr = Some cell"
    "m_symbolBuffer st' = syms" "m_dataCopyBuffer st' = dcb"
    "m_bitsPerSymbol st' = m_bitsPerSymbol st" "m_symbolsPerCell st' = m_symbolsPerCell st"
    by (simp_all add: st')
  from e pb ci en pk [unfolded buf_def] lc lb tk a' p' show ?thesis by auto
qed

lemma put_succeeds:
  assumes pr: "prepared st"
    and dp: "length dataPtr \<le> length (m_dataCopyBuffer st)"
    and b: "m_bitsPerSymbol st \<in> {4, 6, 8, 12}"
    and en: "\<And>n dcb. copy_in dataPtr 0 (m_dataCopyBuffer st) = Some dcb \<Longrightarrow>
               m_symbolsPerCell st \<le> length (snd (Encode c n dcb (m_symbolBuffer st)))"
  shows "\<exists>st'. putArrayfloatV c rowNr dataPtr st = Some st'"
proof -
  from pr obtain e n pb old where
    e: "m_encoder st = Some e" "encoders st e = Some n"
    and pb: "m_packBuffer st = Some pb" "arrays st pb = Some old" and lo: "length old = Stride st"
    unfolding prepared_def by blast
  from dp copy_in_Some [of 0 dataPtr "m_dataCopyBuffer st"] obtain dcb where
    ci: "copy_in dataPtr 0 (m_dataCopyBuffer st) = Some dcb" by auto
  obtain scale syms where es: "Encode c n dcb (m_symbolBuffer st) = (scale, syms)"
    by (cases "Encode c n dcb (m_symbolBuffer st)")
  with en [OF ci, of n] have ls: "m_symbolsPerCell st \<le> length syms" by simp
  have s4: "sizeof_float \<le> length old" using lo by (simp add: Stride_def)
  define buf where "buf = float_bytes scale @ drop sizeof_float old"
  have lb: "length buf = Stride st" using s4 lo by (simp add: buf_def sizeof_float_def)
  then have "sizeof_float + packed_size (unat (m_bitsPerSymbol st)) (m_symbolsPerCell st) \<le> length buf"
    by (simp add: Stride_eq)
  from pack_supported_Some [OF b ls this] obtain cell where
    pk: "pack (m_bitsPerSymbol st) buf sizeof_float syms (m_symbolsPerCell st) = Some cell" by blast
  from pack_frame [OF pk] lb have lc: "length cell = Stride st" by simp
  show ?thesis
    using e pb ci es s4 pk lc
    by (simp add: putArrayfloatV_def Let_def buf_def writeCompressedData_def Stride_def)
qed

lemma get_layout:
  assumes pr: "prepared st" and row: "storage st rowNr = Some cell"
    and get: "getArrayfloatV c rowNr dataPtr st = Some (out, st')"
  shows "\<exists>e n syms. m_encoder st = Some e \<and> encoders st e = Some n
     \<and> length cell = Stride st
     \<and> unpack (m_bitsPerSymbol st) (m_symbolBuffer st) cell sizeof_float (m_symbolsPerCell st) = Some syms
     \<and> m_symbolBuffer st' = syms
     \<and> m_dataCopyBuffer st' = Decode c n (bytes_float (take sizeof_float cell)) syms (m_dataCopyBuffer st)
     \<and> copy_out (length dataPtr) 0 (m_dataCopyBuffer st') dataPtr = Some out
     \<and> prepared st'"
proof -
  from pr obtain e n pb old where
    e: "m_encoder st = Some e" "encoders st e = Some n"
    and pb: "m_packBuffer st = Some pb" "arrays st pb = Some old" and lo: "length old = Stride st"
    unfolding prepared_def by blast
  from get pb row lo have lc: "length cell = Stride st"
    and rd: "readCompressedData rowNr old st = Some cell"
    by (auto simp: getArrayfloatV_def readCompressedData_def bind_eq_Some_conv split: if_splits)
  from get pb rd e obtain syms where
    up: "unpack (m_bitsPerSymbol st) (m_symbolBuffer st) cell sizeof_float (m_symbolsPerCell st) = Some syms"
    and co: "copy_out (length dataPtr) 0
        (Decode c n (bytes_float (take sizeof_float cell)) syms (m_dataCopyBuffer st)) dataPtr = Some out"
    and st': "st' = st\<lparr>arrays := (arrays st)(pb \<mapsto> cell), m_symbolBuffer := syms,
        m_dataCopyBuffer := Decode c n (bytes_float (take sizeof_float cell)) syms (m_dataCopyBuffer st)\<rparr>"
    by (auto simp: getArrayfloatV_def Let_def bind_eq_Some_conv split: if_splits)
  have p': "prepared st'"
    unfolding prepared_def st' using e pb lc by (simp add: Stride_def)
  from e lc up co p' show ?thesis by (simp add: st')
qed

lemma get_succeeds:
  assumes pr: "prepared st" and row: "storage st rowNr = Some cell" and lc: "length cell = Stride st"
    and b: "m_bitsPerSymbol st \<in> {4, 6, 8, 12}"
    and sb: "m_symbolsPerCell st \<le> length (m_symbolBuffer st)"
    and de: "\<And>n sc syms. length syms = length (m_symbolBuffer st) \<Longrightarrow>
               length dataPtr \<le> length (Decode c n sc syms (m_dataCopyBuffer st))"
  shows "\<exists>r. getArrayfloatV c rowNr dataPtr st = Some r"
proof -
  from pr obtain e n pb old where
    e: "m_encoder st = Some e" "encoders st e = Some n"
    and pb: "m_packBuffer st = Some pb" "arrays st pb = Some old" and lo: "length old = Stride st"
    unfolding prepared_def by blast
  have rd: "readCompressedData rowNr old st = Some cell"
    using row lc lo by (simp add: readCompressedData_def)
  have "sizeof_float + packed_size (unat (m_bitsPerSymbol st)) (m_symbolsPerCell st) \<le> length cell"
    using lc by (simp add: Stride_eq)
  from unpack_supported_Some [OF b sb this] obtain syms where
    up: "unpack (m_bitsPerSymbol st) (m_symbolBuffer st) cell sizeof_float (m_symbolsPerCell st) = Some syms"
    and ls: "length syms = length (m_symbolBuffer st)"
    by blast
  have s4: "\<not> length cell < sizeof_float" using lc by (simp add: Stride_def)
  from de [OF ls, of n "bytes_float (take sizeof_float cell)"]
  have "0 + length dataPtr \<le> length (Decode c n (bytes_float (take sizeof_float cell)) syms (m_dataCopyBuffer st))"
    by simp
  from copy_out_Some [OF this] obtain out where
    "copy_out (length dataPtr) 0
        (Decode c n (bytes_float (take sizeof_float cell)) syms (m_dataCopyBuffer st)) dataPtr = Some out"
    by auto
  with e pb rd up s4 show ?thesis
    by (simp add: getArrayfloatV_def Let_def)
qed

section \<open>The properties of the specification\<close>

text \<open>
  C1. Round trip. For each width 4, 6, 8 and 12, every count and every symbol array of that
  length whose values are below \<open>2^w\<close>: when the destination has room for
  \<open>ceil(count * w / 8)\<close> bytes from the pointer on, packing succeeds and unpacking the
  packed bytes into an array of \<open>count\<close> symbols gives back the symbols, whatever the
  destination and the output array held before. The count is arbitrary: zero and the
  counts that are no multiple of the group size are included.
\<close>

theorem pack_unpack_roundtrip:
  assumes "length symbols = count" and "length out = count"
  shows "((\<forall>x \<in> set symbols. x < 2 ^ 4) \<and> d + packed_size 4 count \<le> length dest \<longrightarrow>
           (\<exists>packed. pack4 dest d symbols count = Some packed
              \<and> unpack4 out packed d count = Some symbols))
       \<and> ((\<forall>x \<in> set symbols. x < 2 ^ 6) \<and> d + packed_size 6 count \<le> length dest \<longrightarrow>
           (\<exists>packed. pack6 dest d symbols count = Some packed
              \<and> unpack6 out packed d count = Some symbols))
       \<and> ((\<forall>x \<in> set symbols. x < 2 ^ 8) \<and> d + packed_size 8 count \<le> length dest \<longrightarrow>
           (\<exists>packed. pack8 dest d symbols count = Some packed
              \<and> unpack8 out packed d count = Some symbols))
       \<and> ((\<forall>x \<in> set symbols. x < 2 ^ 12) \<and> d + packed_size 12 count \<le> length dest \<longrightarrow>
           (\<exists>packed. pack12 dest d symbols count = Some packed
              \<and> unpack12 out packed d count = Some symbols))"
proof (intro conjI impI)
  have sb: "count \<le> length symbols" and ob: "count \<le> length out" using assms by simp_all
  have eq: "out' = symbols" if "length out' = length out" "\<forall>i. i < count \<longrightarrow> out' ! i = symbols ! i"
    for out' :: "u32 list"
    using that assms by (intro nth_equalityI) simp_all
  {
    assume h: "(\<forall>x \<in> set symbols. x < 2 ^ 4) \<and> d + packed_size 4 count \<le> length dest"
    then have "\<And>i. i < count \<Longrightarrow> symbols ! i < 16" using assms by simp
    from pack4_unpack4 [OF sb _ ob this] h eq
    show "\<exists>packed. pack4 dest d symbols count = Some packed \<and> unpack4 out packed d count = Some symbols"
      by blast
  }
  {
    assume h: "(\<forall>x \<in> set symbols. x < 2 ^ 6) \<and> d + packed_size 6 count \<le> length dest"
    then have "\<And>i. i < count \<Longrightarrow> symbols ! i < 64" using assms by simp
    from pack6_unpack6 [OF sb _ ob this] h eq
    show "\<exists>packed. pack6 dest d symbols count = Some packed \<and> unpack6 out packed d count = Some symbols"
      by blast
  }
  {
    assume h: "(\<forall>x \<in> set symbols. x < 2 ^ 8) \<and> d + packed_size 8 count \<le> length dest"
    then have "\<And>i. i < count \<Longrightarrow> symbols ! i < 256" using assms by simp
    from pack8_unpack8 [OF sb _ ob this] h eq
    show "\<exists>packed. pack8 dest d symbols count = Some packed \<and> unpack8 out packed d count = Some symbols"
      by blast
  }
  {
    assume h: "(\<forall>x \<in> set symbols. x < 2 ^ 12) \<and> d + packed_size 12 count \<le> length dest"
    then have "\<And>i. i < count \<Longrightarrow> symbols ! i < 4096" using assms by simp
    from pack12_unpack12 [OF sb _ ob this] h eq
    show "\<exists>packed. pack12 dest d symbols count = Some packed \<and> unpack12 out packed d count = Some symbols"
      by blast
  }
qed

text \<open>
  C1 at the symbols 5, 9, 3 (an odd count, and no multiple of four), all four widths,
  packed from the second byte of a six-byte destination.
\<close>

theorem pack_unpack_roundtrip_witness:
  "length [5, 9, 3 :: u32] = 3 \<and> length [0, 0, 0 :: u32] = 3
   \<and> 1 + packed_size 12 3 \<le> length (replicate 6 (0xFF :: u8))
   \<and> (\<exists>packed. pack4 (replicate 6 0xFF) 1 [5, 9, 3] 3 = Some packed
         \<and> unpack4 [0, 0, 0] packed 1 3 = Some [5, 9, 3])
   \<and> (\<exists>packed. pack6 (replicate 6 0xFF) 1 [5, 9, 3] 3 = Some packed
         \<and> unpack6 [0, 0, 0] packed 1 3 = Some [5, 9, 3])
   \<and> (\<exists>packed. pack8 (replicate 6 0xFF) 1 [5, 9, 3] 3 = Some packed
         \<and> unpack8 [0, 0, 0] packed 1 3 = Some [5, 9, 3])
   \<and> (\<exists>packed. pack12 (replicate 6 0xFF) 1 [5, 9, 3] 3 = Some packed
         \<and> unpack12 [0, 0, 0] packed 1 3 = Some [5, 9, 3])"
proof -
  have l: "length [5, 9, 3 :: u32] = 3" "length [0, 0, 0 :: u32] = 3" by simp_all
  have r: "\<forall>x \<in> set [5, 9, 3 :: u32]. x < 2 ^ 4" "\<forall>x \<in> set [5, 9, 3 :: u32]. x < 2 ^ 6"
    "\<forall>x \<in> set [5, 9, 3 :: u32]. x < 2 ^ 8" "\<forall>x \<in> set [5, 9, 3 :: u32]. x < 2 ^ 12" by simp_all
  have s: "1 + packed_size 4 3 \<le> length (replicate 6 (0xFF :: u8))"
    "1 + packed_size 6 3 \<le> length (replicate 6 (0xFF :: u8))"
    "1 + packed_size 8 3 \<le> length (replicate 6 (0xFF :: u8))"
    "1 + packed_size 12 3 \<le> length (replicate 6 (0xFF :: u8))"
    by (simp_all add: packed_size_def)
  from pack_unpack_roundtrip [OF l, of 1 "replicate 6 0xFF"] l r s show ?thesis by blast
qed

text \<open>
  C2. Footprint. Let \<open>(w, packW, unpackW)\<close> be one of the four widths with its packer and
  unpacker, and let the symbol array hold at least \<open>count\<close> symbols. Then, with
  \<open>n = ceil(count * w / 8)\<close>:
  \<^item> with \<open>count = 0\<close> the packer returns the destination unchanged;
  \<^item> when the destination has \<open>n\<close> bytes from the pointer on, the packer succeeds, keeps
    the length, and every byte before the pointer and every byte at offset \<open>n\<close> or beyond is
    as it was;
  \<^item> when \<open>count > 0\<close> and the destination has fewer than \<open>n\<close> bytes from the pointer on,
    the packer writes outside the array (\<open>None\<close>): the last of the \<open>n\<close> bytes is written;
  \<^item> the \<open>n\<close> bytes do not depend on what the destination held: each of them is written;
  \<^item> the same for the unpacker: with \<open>count = 0\<close> it returns the symbol array unchanged; with
    \<open>n\<close> packed bytes it succeeds and leaves every symbol at index \<open>count\<close> or beyond as it
    was; with fewer than \<open>n\<close> packed bytes and \<open>count > 0\<close> it reads outside the array; and
    its first \<open>count\<close> symbols depend only on the first \<open>n\<close> packed bytes, not on the rest
    of the packed array and not on what the symbol array held.
\<close>

theorem pack_unpack_footprint:
  assumes w: "(w, packW, unpackW) \<in> set [(4, pack4, unpack4), (6, pack6, unpack6),
                                         (8, pack8, unpack8), (12, pack12, unpack12)]"
    and sb: "count \<le> length symbols"
    and ob: "count \<le> length out"
  shows "packW dest d symbols 0 = Some dest
     \<and> (d + packed_size w count \<le> length dest \<longrightarrow>
          (\<exists>dest'. packW dest d symbols count = Some dest' \<and> length dest' = length dest
             \<and> (\<forall>i. i < d \<or> d + packed_size w count \<le> i \<longrightarrow> dest' ! i = dest ! i)))
     \<and> (0 < count \<and> length dest < d + packed_size w count \<longrightarrow> packW dest d symbols count = None)
     \<and> (\<forall>dest2 r1 r2. packW dest d symbols count = Some r1 \<and> packW dest2 d symbols count = Some r2 \<longrightarrow>
          (\<forall>j < packed_size w count. r1 ! (d + j) = r2 ! (d + j)))
     \<and> unpackW out packed p 0 = Some out
     \<and> (p + packed_size w count \<le> length packed \<longrightarrow>
          (\<exists>out'. unpackW out packed p count = Some out' \<and> length out' = length out
             \<and> (\<forall>i. count \<le> i \<longrightarrow> out' ! i = out ! i)))
     \<and> (0 < count \<and> length packed < p + packed_size w count \<longrightarrow> unpackW out packed p count = None)
     \<and> (\<forall>out2 packed2 r1 r2. unpackW out packed p count = Some r1 \<and> unpackW out2 packed2 p count = Some r2
            \<and> (\<forall>j < packed_size w count. packed2 ! (p + j) = packed ! (p + j)) \<longrightarrow>
          (\<forall>i < count. r1 ! i = r2 ! i))"
proof -
  from w consider
      (4) "w = 4" "packW = pack4" "unpackW = unpack4"
    | (6) "w = 6" "packW = pack6" "unpackW = unpack6"
    | (8) "w = 8" "packW = pack8" "unpackW = unpack8"
    | (12) "w = 12" "packW = pack12" "unpackW = unpack12"
    by auto
  then show ?thesis
  proof cases
    case 4
    show ?thesis unfolding 4
    proof (intro conjI impI allI)
      show "pack4 dest d symbols 0 = Some dest" by (rule pack4_zero)
      show "unpack4 out packed p 0 = Some out" by (rule unpack4_zero)
      show "\<exists>dest'. pack4 dest d symbols count = Some dest' \<and> length dest' = length dest
             \<and> (\<forall>i. i < d \<or> d + packed_size 4 count \<le> i \<longrightarrow> dest' ! i = dest ! i)"
        if "d + packed_size 4 count \<le> length dest"
        using pack4_spec [OF sb that] by blast
      show "pack4 dest d symbols count = None" if "0 < count \<and> length dest < d + packed_size 4 count"
        using that pack4_SomeD [of dest d symbols count] by (cases "pack4 dest d symbols count") auto
      show "r1 ! (d + j) = r2 ! (d + j)"
        if "pack4 dest d symbols count = Some r1 \<and> pack4 dest2 d symbols count = Some r2"
          "j < packed_size 4 count" for dest2 r1 r2 j
        using that pack4_determined by blast
      show "\<exists>out'. unpack4 out packed p count = Some out' \<and> length out' = length out
             \<and> (\<forall>i. count \<le> i \<longrightarrow> out' ! i = out ! i)"
        if "p + packed_size 4 count \<le> length packed"
        using unpack4_spec [OF ob that] by blast
      show "unpack4 out packed p count = None" if "0 < count \<and> length packed < p + packed_size 4 count"
        using that unpack4_SomeD [of out packed p count] by (cases "unpack4 out packed p count") auto
      show "r1 ! i = r2 ! i"
        if "unpack4 out packed p count = Some r1 \<and> unpack4 out2 packed2 p count = Some r2
            \<and> (\<forall>j < packed_size 4 count. packed2 ! (p + j) = packed ! (p + j))" "i < count"
        for out2 packed2 r1 r2 i
        using that unpack4_determined [of out packed p count r1 out2 packed2 r2 i] by blast
    qed
  next
    case 6
    show ?thesis unfolding 6
    proof (intro conjI impI allI)
      show "pack6 dest d symbols 0 = Some dest" by (rule pack6_zero)
      show "unpack6 out packed p 0 = Some out" by (rule unpack6_zero)
      show "\<exists>dest'. pack6 dest d symbols count = Some dest' \<and> length dest' = length dest
             \<and> (\<forall>i. i < d \<or> d + packed_size 6 count \<le> i \<longrightarrow> dest' ! i = dest ! i)"
        if "d + packed_size 6 count \<le> length dest"
        using pack6_spec [OF sb that] by blast
      show "pack6 dest d symbols count = None" if "0 < count \<and> length dest < d + packed_size 6 count"
        using that pack6_SomeD [of dest d symbols count] by (cases "pack6 dest d symbols count") auto
      show "r1 ! (d + j) = r2 ! (d + j)"
        if "pack6 dest d symbols count = Some r1 \<and> pack6 dest2 d symbols count = Some r2"
          "j < packed_size 6 count" for dest2 r1 r2 j
        using that pack6_determined by blast
      show "\<exists>out'. unpack6 out packed p count = Some out' \<and> length out' = length out
             \<and> (\<forall>i. count \<le> i \<longrightarrow> out' ! i = out ! i)"
        if "p + packed_size 6 count \<le> length packed"
        using unpack6_spec [OF ob that] by blast
      show "unpack6 out packed p count = None" if "0 < count \<and> length packed < p + packed_size 6 count"
        using that unpack6_SomeD [of out packed p count] by (cases "unpack6 out packed p count") auto
      show "r1 ! i = r2 ! i"
        if "unpack6 out packed p count = Some r1 \<and> unpack6 out2 packed2 p count = Some r2
            \<and> (\<forall>j < packed_size 6 count. packed2 ! (p + j) = packed ! (p + j))" "i < count"
        for out2 packed2 r1 r2 i
        using that unpack6_determined [of out packed p count r1 out2 packed2 r2 i] by blast
    qed
  next
    case 8
    show ?thesis unfolding 8
    proof (intro conjI impI allI)
      show "pack8 dest d symbols 0 = Some dest" by (rule pack8_zero)
      show "unpack8 out packed p 0 = Some out" by (rule unpack8_zero)
      show "\<exists>dest'. pack8 dest d symbols count = Some dest' \<and> length dest' = length dest
             \<and> (\<forall>i. i < d \<or> d + packed_size 8 count \<le> i \<longrightarrow> dest' ! i = dest ! i)"
        if "d + packed_size 8 count \<le> length dest"
        using pack8_spec [OF sb that] by blast
      show "pack8 dest d symbols count = None" if "0 < count \<and> length dest < d + packed_size 8 count"
        using that pack8_SomeD [of dest d symbols count] by (cases "pack8 dest d symbols count") auto
      show "r1 ! (d + j) = r2 ! (d + j)"
        if "pack8 dest d symbols count = Some r1 \<and> pack8 dest2 d symbols count = Some r2"
          "j < packed_size 8 count" for dest2 r1 r2 j
        using that pack8_determined by blast
      show "\<exists>out'. unpack8 out packed p count = Some out' \<and> length out' = length out
             \<and> (\<forall>i. count \<le> i \<longrightarrow> out' ! i = out ! i)"
        if "p + packed_size 8 count \<le> length packed"
        using unpack8_spec [OF ob that] by blast
      show "unpack8 out packed p count = None" if "0 < count \<and> length packed < p + packed_size 8 count"
        using that unpack8_SomeD [of out packed p count] by (cases "unpack8 out packed p count") auto
      show "r1 ! i = r2 ! i"
        if "unpack8 out packed p count = Some r1 \<and> unpack8 out2 packed2 p count = Some r2
            \<and> (\<forall>j < packed_size 8 count. packed2 ! (p + j) = packed ! (p + j))" "i < count"
        for out2 packed2 r1 r2 i
        using that unpack8_determined [of out packed p count r1 out2 packed2 r2 i] by blast
    qed
  next
    case 12
    show ?thesis unfolding 12
    proof (intro conjI impI allI)
      show "pack12 dest d symbols 0 = Some dest" by (rule pack12_zero)
      show "unpack12 out packed p 0 = Some out" by (rule unpack12_zero)
      show "\<exists>dest'. pack12 dest d symbols count = Some dest' \<and> length dest' = length dest
             \<and> (\<forall>i. i < d \<or> d + packed_size 12 count \<le> i \<longrightarrow> dest' ! i = dest ! i)"
        if "d + packed_size 12 count \<le> length dest"
        using pack12_spec [OF sb that] by blast
      show "pack12 dest d symbols count = None" if "0 < count \<and> length dest < d + packed_size 12 count"
        using that pack12_SomeD [of dest d symbols count] by (cases "pack12 dest d symbols count") auto
      show "r1 ! (d + j) = r2 ! (d + j)"
        if "pack12 dest d symbols count = Some r1 \<and> pack12 dest2 d symbols count = Some r2"
          "j < packed_size 12 count" for dest2 r1 r2 j
        using that pack12_determined by blast
      show "\<exists>out'. unpack12 out packed p count = Some out' \<and> length out' = length out
             \<and> (\<forall>i. count \<le> i \<longrightarrow> out' ! i = out ! i)"
        if "p + packed_size 12 count \<le> length packed"
        using unpack12_spec [OF ob that] by blast
      show "unpack12 out packed p count = None" if "0 < count \<and> length packed < p + packed_size 12 count"
        using that unpack12_SomeD [of out packed p count] by (cases "unpack12 out packed p count") auto
      show "r1 ! i = r2 ! i"
        if "unpack12 out packed p count = Some r1 \<and> unpack12 out2 packed2 p count = Some r2
            \<and> (\<forall>j < packed_size 12 count. packed2 ! (p + j) = packed ! (p + j))" "i < count"
        for out2 packed2 r1 r2 i
        using that unpack12_determined [of out packed p count r1 out2 packed2 r2 i] by blast
    qed
  qed
qed

text \<open>
  C2 at width 6 with three symbols: three bytes are needed; a destination with four bytes
  after the pointer keeps its first and last byte, one with two bytes after the pointer is
  overrun, and so is a packed array of two bytes.
\<close>

theorem pack_unpack_footprint_witness:
  "(6, pack6, unpack6) \<in> set [(4, pack4, unpack4), (6, pack6, unpack6), (8, pack8, unpack8), (12, pack12, unpack12)]
   \<and> 3 \<le> length [1, 2, 3 :: u32] \<and> 3 \<le> length [9, 9, 9, 9 :: u32]
   \<and> 1 + packed_size 6 3 \<le> length [0xFF, 0xFF, 0xFF, 0xFF, 0xFF :: u8]
   \<and> 0 < (3 :: nat) \<and> length [0xFF, 0xFF, 0xFF :: u8] < 1 + packed_size 6 3
   \<and> 0 + packed_size 6 3 \<le> length [0x81, 0x30, 0x00 :: u8]
   \<and> length [0x81, 0x30 :: u8] < 0 + packed_size 6 3
   \<and> pack6 [0xFF, 0xFF, 0xFF, 0xFF, 0xFF] 1 [1, 2, 3] 0 = Some [0xFF, 0xFF, 0xFF, 0xFF, 0xFF]
   \<and> (\<exists>dest'. pack6 [0xFF, 0xFF, 0xFF, 0xFF, 0xFF] 1 [1, 2, 3] 3 = Some dest' \<and> length dest' = 5
          \<and> dest' ! 0 = 0xFF \<and> dest' ! 4 = 0xFF)
   \<and> pack6 [0xFF, 0xFF, 0xFF] 1 [1, 2, 3] 3 = None
   \<and> unpack6 [9, 9, 9, 9] [0x81, 0x30, 0x00] 0 0 = Some [9, 9, 9, 9]
   \<and> (\<exists>out'. unpack6 [9, 9, 9, 9] [0x81, 0x30, 0x00] 0 3 = Some out' \<and> length out' = 4 \<and> out' ! 3 = 9)
   \<and> unpack6 [9, 9, 9, 9] [0x81, 0x30] 0 3 = None"
proof -
  have m: "(6, pack6, unpack6) \<in> set [(4, pack4, unpack4), (6, pack6, unpack6), (8, pack8, unpack8), (12, pack12, unpack12)]"
    by simp
  have l: "3 \<le> length [1, 2, 3 :: u32]" "3 \<le> length [9, 9, 9, 9 :: u32]" by simp_all
  have s: "1 + packed_size 6 3 \<le> length [0xFF, 0xFF, 0xFF, 0xFF, 0xFF :: u8]"
    "0 < (3 :: nat) \<and> length [0xFF, 0xFF, 0xFF :: u8] < 1 + packed_size 6 3"
    "0 + packed_size 6 3 \<le> length [0x81, 0x30, 0x00 :: u8]"
    "0 < (3 :: nat) \<and> length [0x81, 0x30 :: u8] < 0 + packed_size 6 3"
    by (simp_all add: packed_size_def)
  have ps: "packed_size 6 3 = 3" by (simp add: packed_size_def)
  note a = pack_unpack_footprint [OF m l, of "[0xFF, 0xFF, 0xFF, 0xFF, 0xFF]" 1 "[0x81, 0x30, 0x00]" 0]
  note b = pack_unpack_footprint [OF m l, of "[0xFF, 0xFF, 0xFF]" 1 "[0x81, 0x30]" 0]
  from a s(1) have "\<exists>dest'. pack6 [0xFF, 0xFF, 0xFF, 0xFF, 0xFF] 1 [1, 2, 3] 3 = Some dest'
      \<and> length dest' = length [0xFF, 0xFF, 0xFF, 0xFF, 0xFF :: u8]
      \<and> (\<forall>i. i < 1 \<or> 1 + packed_size 6 3 \<le> i \<longrightarrow> dest' ! i = [0xFF, 0xFF, 0xFF, 0xFF, 0xFF] ! i)"
    by blast
  then have 1: "\<exists>dest'. pack6 [0xFF, 0xFF, 0xFF, 0xFF, 0xFF] 1 [1, 2, 3] 3 = Some dest' \<and> length dest' = 5
          \<and> dest' ! 0 = 0xFF \<and> dest' ! 4 = 0xFF"
    unfolding ps by auto
  from a s(3) have "\<exists>out'. unpack6 [9, 9, 9, 9] [0x81, 0x30, 0x00] 0 3 = Some out'
      \<and> length out' = length [9, 9, 9, 9 :: u32] \<and> (\<forall>i. 3 \<le> i \<longrightarrow> out' ! i = [9, 9, 9, 9] ! i)"
    by blast
  then have 2: "\<exists>out'. unpack6 [9, 9, 9, 9] [0x81, 0x30, 0x00] 0 3 = Some out' \<and> length out' = 4 \<and> out' ! 3 = 9"
    by auto
  from a have 3: "pack6 [0xFF, 0xFF, 0xFF, 0xFF, 0xFF] 1 [1, 2, 3] 0 = Some [0xFF, 0xFF, 0xFF, 0xFF, 0xFF]"
    "unpack6 [9, 9, 9, 9] [0x81, 0x30, 0x00] 0 0 = Some [9, 9, 9, 9]" by blast+
  from b s(2) s(4) have 4: "pack6 [0xFF, 0xFF, 0xFF] 1 [1, 2, 3] 3 = None"
    "unpack6 [9, 9, 9, 9] [0x81, 0x30] 0 3 = None" by blast+
  from m l s 1 2 3 4 show ?thesis by blast
qed

text \<open>
  C3. For each supported bit count 4, 6, 8 and 12 and every input, the dispatcher \<open>pack\<close>
  returns what the packer of that width returns (the same bytes, or the same failure), and
  \<open>unpack\<close> returns what the unpacker of that width returns.
\<close>

theorem pack_unpack_dispatch:
  "pack 4 dest d symbolBuffer symbolCount = pack4 dest d symbolBuffer symbolCount
   \<and> pack 6 dest d symbolBuffer symbolCount = pack6 dest d symbolBuffer symbolCount
   \<and> pack 8 dest d symbolBuffer symbolCount = pack8 dest d symbolBuffer symbolCount
   \<and> pack 12 dest d symbolBuffer symbolCount = pack12 dest d symbolBuffer symbolCount
   \<and> unpack 4 out packedBuffer p symbolCount = unpack4 out packedBuffer p symbolCount
   \<and> unpack 6 out packedBuffer p symbolCount = unpack6 out packedBuffer p symbolCount
   \<and> unpack 8 out packedBuffer p symbolCount = unpack8 out packedBuffer p symbolCount
   \<and> unpack 12 out packedBuffer p symbolCount = unpack12 out packedBuffer p symbolCount"
  by (simp add: pack_def unpack_def)

text \<open>
  C4. For a bit count other than 4, 6, 8 and 12 the dispatchers report no error and do
  nothing: \<open>pack\<close> returns the destination array as it was and \<open>unpack\<close> returns the symbol
  array as it was, whatever the other arguments are.
\<close>

theorem dispatch_unsupported_noop:
  assumes "bitCount \<notin> {4, 6, 8, 12}"
  shows "pack bitCount dest d symbolBuffer symbolCount = Some dest
     \<and> unpack bitCount out packedBuffer p symbolCount = Some out"
  using assms by (simp add: pack_def unpack_def)

text \<open>C4 at the bit count 5.\<close>

theorem dispatch_unsupported_noop_witness:
  "(5 :: u32) \<notin> {4, 6, 8, 12}
   \<and> pack 5 [0xAA, 0xBB] 0 [1, 2, 3] 3 = Some [0xAA, 0xBB]
   \<and> unpack 5 [7, 8, 9] [0xAA, 0xBB] 0 3 = Some [7, 8, 9]"
  using dispatch_unsupported_noop [where bitCount = 5 and dest = "[0xAA, 0xBB]" and d = 0
      and symbolBuffer = "[1, 2, 3]" and symbolCount = 3 and out = "[7, 8, 9]"
      and packedBuffer = "[0xAA, 0xBB]" and p = 0]
  by simp

text \<open>
  C5, as stated, fails: with two symbols left over, the two bytes written hold all six bits
  of the second symbol. Packing \<open>[1, 0]\<close> and \<open>[1, 63]\<close> gives different bytes, the six one
  bits of 63 are bits 6 and 7 of the first byte and bits 0 to 3 of the second, and unpacking
  reads 63 back.
\<close>

theorem pack6_two_left_counterexample:
  "pack6 [0, 0] 0 [1, 0] 2 = Some [0x01, 0x00]
   \<and> pack6 [0, 0] 0 [1, 63] 2 = Some [0xC1, 0x0F]
   \<and> unpack6 [0, 0] [0xC1, 0x0F] 0 2 = Some [1, 63]"
  by (simp add: pack6_def unpack6_def load_def store_def assign_byte_def or_byte_def load_byte_def
      or_symbol_def)

text \<open>
  C5, amended. For six-bit packing of \<open>count = 4 * l + r\<close> symbols with \<open>r\<close> in 1, 2, 3, the
  packed size is \<open>3 * l + r\<close>: the partial group writes exactly \<open>r\<close> bytes after the \<open>3 * l\<close>
  bytes of the full groups. A destination with fewer bytes is overrun, and no byte at offset
  \<open>3 * l + r\<close> or beyond changes. With \<open>r = 2\<close> and both left-over symbols \<open>a\<close>, \<open>b\<close> below
  64, the two bytes are \<open>a | (b & 3) << 6\<close> and \<open>b >> 2\<close>: they hold all twelve bits of
  the two symbols, no bit of the second symbol is lost, and \<open>unpack6\<close> reads both back.
\<close>

theorem pack6_partial_group:
  assumes sb: "count \<le> length symbols" and db: "d + packed_size 6 count \<le> length dest"
    and r: "count mod 4 \<noteq> 0"
  shows "packed_size 6 count = 3 * (count div 4) + count mod 4
     \<and> (\<forall>dest2. length dest2 < d + 3 * (count div 4) + count mod 4 \<longrightarrow>
           pack6 dest2 d symbols count = None)
     \<and> (\<exists>dest'. pack6 dest d symbols count = Some dest'
          \<and> (\<forall>i. d + 3 * (count div 4) + count mod 4 \<le> i \<longrightarrow> dest' ! i = dest ! i)
          \<and> (count mod 4 = 2 \<and> symbols ! (count - 2) < 64 \<and> symbols ! (count - 1) < 64 \<longrightarrow>
                ucast (dest' ! (d + 3 * (count div 4))) =
                  symbols ! (count - 2) OR push_bit 6 (symbols ! (count - 1) AND 3)
              \<and> ucast (dest' ! (d + 3 * (count div 4) + 1)) = drop_bit 2 (symbols ! (count - 1))
              \<and> (\<forall>out. count \<le> length out \<longrightarrow>
                    (\<exists>out'. unpack6 out dest' d count = Some out'
                       \<and> out' ! (count - 2) = symbols ! (count - 2)
                       \<and> out' ! (count - 1) = symbols ! (count - 1)))))"
proof -
  define l where "l = count div 4"
  define m where "m = count mod 4"
  have sc: "count = 4 * l + m" and m: "m < 4" by (simp_all add: l_def m_def)
  have ps: "packed_size 6 count = 3 * l + m"
    by (subst sc) (rule packed_size_6 [OF m])
  from r have c0: "0 < count" by (cases "count = 0") simp_all
  have none: "pack6 dest2 d symbols count = None" if "length dest2 < d + 3 * l + m" for dest2
    using that pack6_SomeD [of dest2 d symbols count, OF _ c0] ps
    by (cases "pack6 dest2 d symbols count") auto
  from pack6_spec [OF sb db] obtain dest' where
    pk: "pack6 dest d symbols count = Some dest'"
    and len: "length dest' = length dest"
    and fr: "\<And>i. i < d \<or> d + packed_size 6 count \<le> i \<Longrightarrow> dest' ! i = dest ! i"
    and p0: "\<And>k. 4 * k < count \<Longrightarrow> dest' ! (d + 3 * k) =
            (if 4 * k + 1 < count then p6_b0 (symbols ! (4 * k)) (symbols ! (4 * k + 1))
             else ucast (symbols ! (4 * k)))"
    and p1: "\<And>k. 4 * k + 1 < count \<Longrightarrow> dest' ! (d + 3 * k + 1) =
            (if 4 * k + 2 < count then p6_b1 (symbols ! (4 * k + 1)) (symbols ! (4 * k + 2))
             else p6_t1 (symbols ! (4 * k + 1)))"
    by blast
  have fr': "\<forall>i. d + 3 * l + m \<le> i \<longrightarrow> dest' ! i = dest ! i"
    using fr ps by (simp add: add.assoc)
  have two: "ucast (dest' ! (d + 3 * l)) = symbols ! (count - 2) OR push_bit 6 (symbols ! (count - 1) AND 3)
       \<and> ucast (dest' ! (d + 3 * l + 1)) = drop_bit 2 (symbols ! (count - 1))
       \<and> (\<forall>out. count \<le> length out \<longrightarrow>
            (\<exists>out'. unpack6 out dest' d count = Some out'
               \<and> out' ! (count - 2) = symbols ! (count - 2)
               \<and> out' ! (count - 1) = symbols ! (count - 1)))"
    if m2: "m = 2" and ra: "symbols ! (count - 2) < 64" and rb: "symbols ! (count - 1) < 64"
  proof -
    from m2 have c: "count - 2 = 4 * l" "count - 1 = 4 * l + 1" by (simp_all add: sc)
    from m2 have v: "4 * l < count" "4 * l + 1 < count" "\<not> 4 * l + 2 < count" by (simp_all add: sc)
    from p0 [OF v(1)] p1 [OF v(2)] v
    have b: "dest' ! (d + 3 * l) = p6_b0 (symbols ! (4 * l)) (symbols ! (4 * l + 1))"
      "dest' ! (d + 3 * l + 1) = p6_t1 (symbols ! (4 * l + 1))" by simp_all
    have rec: "\<exists>out'. unpack6 out dest' d count = Some out'
               \<and> out' ! (count - 2) = symbols ! (count - 2)
               \<and> out' ! (count - 1) = symbols ! (count - 1)" if ob: "count \<le> length out" for out
    proof -
      from db len have "d + packed_size 6 count \<le> length dest'" by simp
      from unpack6_spec [OF ob this] obtain out' where
        up: "unpack6 out dest' d count = Some out'"
        and u0: "\<And>k. 4 * k < count \<Longrightarrow> out' ! (4 * k) = u6_a (dest' ! (d + 3 * k))"
        and u1: "\<And>k. 4 * k + 1 < count \<Longrightarrow>
            out' ! (4 * k + 1) = u6_b (dest' ! (d + 3 * k)) (dest' ! (d + 3 * k + 1))"
        by blast
      from u0 [OF v(1)] u1 [OF v(2)] b ra rb c
      have "out' ! (count - 2) = symbols ! (count - 2)" "out' ! (count - 1) = symbols ! (count - 1)"
        by (simp_all add: u6_a_p6_b0 u6_b_tail)
      with up show ?thesis by blast
    qed
    from b ra rb c rec show ?thesis by (simp add: p6_b0_value p6_t1_value)
  qed
  from ps none pk fr' two show ?thesis unfolding l_def [symmetric] m_def [symmetric] by blast
qed

text \<open>
  C5 amended, at six symbols ending in 5 and 63: five bytes, the last two \<open>0xC5\<close> and
  \<open>0x0F\<close>.
\<close>

theorem pack6_partial_group_witness:
  "6 \<le> length [1, 2, 3, 4, 5, 63 :: u32] \<and> 1 + packed_size 6 6 \<le> length (replicate 7 (0xFF :: u8))
   \<and> (6 :: nat) mod 4 \<noteq> 0
   \<and> packed_size 6 6 = 5
   \<and> pack6 (replicate 5 0xFF) 1 [1, 2, 3, 4, 5, 63] 6 = None
   \<and> (\<exists>dest'. pack6 (replicate 7 0xFF) 1 [1, 2, 3, 4, 5, 63] 6 = Some dest'
         \<and> dest' ! 6 = 0xFF
         \<and> ucast (dest' ! 4) = (0xC5 :: u32) \<and> ucast (dest' ! 5) = (0x0F :: u32)
         \<and> (\<exists>out'. unpack6 [0, 0, 0, 0, 0, 0] dest' 1 6 = Some out' \<and> out' ! 4 = 5 \<and> out' ! 5 = 63))"
proof -
  have h: "6 \<le> length [1, 2, 3, 4, 5, 63 :: u32]"
    "1 + packed_size 6 6 \<le> length (replicate 7 (0xFF :: u8))" "(6 :: nat) mod 4 \<noteq> 0"
    by (simp_all add: packed_size_def)
  have e: "(6 :: nat) div 4 = 1" "(6 :: nat) mod 4 = 2" by simp_all
  note t = pack6_partial_group [OF h, unfolded e]
  from t have 1: "packed_size 6 6 = 5" by simp
  from t have "length (replicate 5 (0xFF :: u8)) < 1 + 3 * 1 + 2 \<longrightarrow>
      pack6 (replicate 5 0xFF) 1 [1, 2, 3, 4, 5, 63] 6 = None" by blast
  then have 2: "pack6 (replicate 5 0xFF) 1 [1, 2, 3, 4, 5, 63] 6 = None" by simp
  from t obtain dest' where
    p: "pack6 (replicate 7 0xFF) 1 [1, 2, 3, 4, 5, 63] 6 = Some dest'"
    and f: "\<forall>i. 1 + 3 * 1 + 2 \<le> i \<longrightarrow> dest' ! i = replicate 7 0xFF ! i"
    and g: "2 = (2 :: nat) \<and> [1, 2, 3, 4, 5, 63 :: u32] ! (6 - 2) < 64 \<and> [1, 2, 3, 4, 5, 63 :: u32] ! (6 - 1) < 64 \<longrightarrow>
                ucast (dest' ! (1 + 3 * 1)) =
                  [1, 2, 3, 4, 5, 63 :: u32] ! (6 - 2) OR push_bit 6 ([1, 2, 3, 4, 5, 63] ! (6 - 1) AND 3)
              \<and> ucast (dest' ! (1 + 3 * 1 + 1)) = drop_bit 2 ([1, 2, 3, 4, 5, 63 :: u32] ! (6 - 1))
              \<and> (\<forall>out. 6 \<le> length out \<longrightarrow>
                    (\<exists>out'. unpack6 out dest' 1 6 = Some out'
                       \<and> out' ! (6 - 2) = [1, 2, 3, 4, 5, 63] ! (6 - 2)
                       \<and> out' ! (6 - 1) = [1, 2, 3, 4, 5, 63] ! (6 - 1)))"
    by blast
  from f have 3: "dest' ! 6 = 0xFF" by simp
  from g have 4: "ucast (dest' ! 4) = (0xC5 :: u32)" "ucast (dest' ! 5) = (0x0F :: u32)"
    by simp_all
  from g have "6 \<le> length [0, 0, 0, 0, 0, 0 :: u32] \<longrightarrow>
       (\<exists>out'. unpack6 [0, 0, 0, 0, 0, 0] dest' 1 6 = Some out'
                       \<and> out' ! (6 - 2) = [1, 2, 3, 4, 5, 63] ! (6 - 2)
                       \<and> out' ! (6 - 1) = [1, 2, 3, 4, 5, 63] ! (6 - 1))"
    by simp
  then have 5: "\<exists>out'. unpack6 [0, 0, 0, 0, 0, 0] dest' 1 6 = Some out' \<and> out' ! 4 = 5 \<and> out' ! 5 = 63"
    by simp
  from h 1 2 p 3 4 5 show ?thesis by blast
qed

text \<open>
  C6, as stated, fails: the last byte is assigned whole. Packing the single symbol 5 at four
  bits into a byte that held \<open>0xFF\<close> leaves \<open>0x05\<close>: the upper nibble was \<open>0xF\<close> and is 0.
  Packing the single symbol \<open>0xABC\<close> at twelve bits into two bytes that held \<open>0xFF\<close> leaves
  \<open>0xBC\<close>, \<open>0x0A\<close>: the upper nibble of the last byte is 0.
\<close>

theorem pack_odd_tail_counterexample:
  "pack4 [0xFF] 0 [5] 1 = Some [0x05]
   \<and> drop_bit 4 (0xFF :: u8) = 0xF \<and> drop_bit 4 (0x05 :: u8) = 0
   \<and> pack12 [0xFF, 0xFF] 0 [0xABC] 1 = Some [0xBC, 0x0A]
   \<and> drop_bit 4 (0x0A :: u8) = 0"
  by (simp add: pack4_def pack12_def load_def store_def assign_byte_def)

text \<open>
  C6, amended. For an odd count, the last symbol \<open>a\<close> is written by plain assignments of
  whole bytes. At four bits the final byte is the low eight bits of \<open>a\<close>: for \<open>a < 16\<close> its
  lower nibble is \<open>a\<close> and its upper nibble is zero. At twelve bits the left-over symbol
  writes two bytes, \<open>a & 0xFF\<close> and \<open>(a & 0xF00) >> 8\<close>, and the upper nibble of that last
  byte is zero.
\<close>

theorem pack_odd_tail_byte:
  assumes sb: "count \<le> length symbols" and odd: "count mod 2 = 1"
  shows "(d + packed_size 4 count \<le> length dest \<longrightarrow>
           (\<exists>dest'. pack4 dest d symbols count = Some dest'
              \<and> packed_size 4 count = count div 2 + 1
              \<and> dest' ! (d + count div 2) = ucast (symbols ! (count - 1))
              \<and> (symbols ! (count - 1) < 16 \<longrightarrow>
                    dest' ! (d + count div 2) AND 0x0F = ucast (symbols ! (count - 1))
                  \<and> drop_bit 4 (dest' ! (d + count div 2)) = 0)))
       \<and> (d + packed_size 12 count \<le> length dest \<longrightarrow>
           (\<exists>dest'. pack12 dest d symbols count = Some dest'
              \<and> packed_size 12 count = 3 * (count div 2) + 2
              \<and> dest' ! (d + 3 * (count div 2)) = ucast (symbols ! (count - 1) AND 0xFF)
              \<and> dest' ! (d + 3 * (count div 2) + 1) = ucast (drop_bit 8 (symbols ! (count - 1) AND 0xF00))
              \<and> drop_bit 4 (dest' ! (d + 3 * (count div 2) + 1)) = 0))"
proof (intro conjI impI)
  define l where "l = count div 2"
  have sc: "count = 2 * l + 1" using odd by (simp add: l_def) presburger
  have c: "count - 1 = 2 * l" "count div 2 = l" by (simp_all add: sc)
  have v: "2 * l < count" "\<not> 2 * l + 1 < count" by (simp_all add: sc)
  {
    assume db: "d + packed_size 4 count \<le> length dest"
    have ps: "packed_size 4 count = l + 1"
      by (subst sc) (rule packed_size_4, simp)
    from pack4_spec [OF sb db] obtain dest' where
      pk: "pack4 dest d symbols count = Some dest'"
      and p0: "\<And>k. 2 * k < count \<Longrightarrow> dest' ! (d + k) =
            (if 2 * k + 1 < count then p4_b (symbols ! (2 * k)) (symbols ! (2 * k + 1))
             else ucast (symbols ! (2 * k)))"
      by blast
    from p0 [OF v(1)] v(2) have b: "dest' ! (d + l) = ucast (symbols ! (2 * l))" by simp
    with pk ps
    show "\<exists>dest'. pack4 dest d symbols count = Some dest'
              \<and> packed_size 4 count = count div 2 + 1
              \<and> dest' ! (d + count div 2) = ucast (symbols ! (count - 1))
              \<and> (symbols ! (count - 1) < 16 \<longrightarrow>
                    dest' ! (d + count div 2) AND 0x0F = ucast (symbols ! (count - 1))
                  \<and> drop_bit 4 (dest' ! (d + count div 2)) = 0)"
      unfolding c by (auto simp: nib_lo nib_hi)
  }
  {
    assume db: "d + packed_size 12 count \<le> length dest"
    have ps: "packed_size 12 count = 3 * l + 2"
      using packed_size_12 [of 1 l] by (simp add: sc)
    from pack12_spec [OF sb db] obtain dest' where
      pk: "pack12 dest d symbols count = Some dest'"
      and p0: "\<And>k. 2 * k < count \<Longrightarrow> dest' ! (d + 3 * k) = p12_b0 (symbols ! (2 * k))"
      and p1: "\<And>k. 2 * k < count \<Longrightarrow> dest' ! (d + 3 * k + 1) =
            (if 2 * k + 1 < count then p12_b1 (symbols ! (2 * k)) (symbols ! (2 * k + 1))
             else p12_t1 (symbols ! (2 * k)))"
      by blast
    from p0 [OF v(1)] p1 [OF v(1)] v(2)
    have b: "dest' ! (d + 3 * l) = p12_b0 (symbols ! (2 * l))"
      "dest' ! (d + 3 * l + 1) = p12_t1 (symbols ! (2 * l))" by simp_all
    have h: "drop_bit 4 (dest' ! (d + 3 * l + 1)) = 0" unfolding b by (rule p12_t1_hi)
    from pk ps b h
    show "\<exists>dest'. pack12 dest d symbols count = Some dest'
              \<and> packed_size 12 count = 3 * (count div 2) + 2
              \<and> dest' ! (d + 3 * (count div 2)) = ucast (symbols ! (count - 1) AND 0xFF)
              \<and> dest' ! (d + 3 * (count div 2) + 1) = ucast (drop_bit 8 (symbols ! (count - 1) AND 0xF00))
              \<and> drop_bit 4 (dest' ! (d + 3 * (count div 2) + 1)) = 0"
      unfolding c by (auto simp: p12_b0_def p12_t1_def)
  }
qed

text \<open>C6 amended, at the symbols 5, 9, 3.\<close>

theorem pack_odd_tail_byte_witness:
  "3 \<le> length [5, 9, 3 :: u32] \<and> (3 :: nat) mod 2 = 1
   \<and> 0 + packed_size 12 3 \<le> length (replicate 5 (0xFF :: u8))
   \<and> (\<exists>dest'. pack4 (replicate 5 0xFF) 0 [5, 9, 3] 3 = Some dest' \<and> dest' ! 1 = 0x03)
   \<and> (\<exists>dest'. pack12 (replicate 5 0xFF) 0 [5, 9, 3] 3 = Some dest'
         \<and> dest' ! 3 = 0x03 \<and> dest' ! 4 = 0x00)"
proof -
  have h: "3 \<le> length [5, 9, 3 :: u32]" "(3 :: nat) mod 2 = 1" by simp_all
  have s: "0 + packed_size 4 3 \<le> length (replicate 5 (0xFF :: u8))"
    "0 + packed_size 12 3 \<le> length (replicate 5 (0xFF :: u8))"
    by (simp_all add: packed_size_def)
  have e: "(3 :: nat) div 2 = 1" "(3 :: nat) - 1 = 2" "(0 :: nat) + 1 = 1" "(0 :: nat) + 3 * 1 = 3"
    "(3 :: nat) + 1 = 4" by simp_all
  note t = pack_odd_tail_byte [OF h, of 0 "replicate 5 0xFF", unfolded e]
  from t s(1) obtain d4 where 4: "pack4 (replicate 5 0xFF) 0 [5, 9, 3] 3 = Some d4"
    "d4 ! 1 = ucast ([5, 9, 3 :: u32] ! 2)" by blast
  from t s(2) obtain d12 where 12: "pack12 (replicate 5 0xFF) 0 [5, 9, 3] 3 = Some d12"
    "d12 ! 3 = ucast ([5, 9, 3 :: u32] ! 2 AND 0xFF)"
    "d12 ! 4 = ucast (drop_bit 8 ([5, 9, 3 :: u32] ! 2 AND 0xF00))" by blast
  from 4(2) have a: "d4 ! 1 = 0x03" by simp
  from 12(2,3) have b: "d12 ! 3 = 0x03" "d12 ! 4 = 0x00" by simp_all
  from h s 4(1) 12(1) a b show ?thesis by blast
qed

text \<open>
  C7. For every full group \<open>k\<close> of four symbols \<open>a, b, c, e\<close>, each below 64, \<open>pack6\<close> makes
  the three bytes at offset \<open>3 * k\<close> equal to \<open>a | (b & 3) << 6\<close>,
  \<open>(b >> 2) & 15 | (c & 15) << 4\<close> and \<open>(c >> 4) & 3 | e << 2\<close>. The equations are between
  32-bit values, so nothing is lost in the bytes; the symbols of group \<open>k\<close> are the input
  symbols \<open>4 * k\<close> to \<open>4 * k + 3\<close>, and an earlier symbol takes the lower bits.
\<close>

theorem pack6_full_group_bytes:
  assumes sb: "count \<le> length symbols" and db: "d + packed_size 6 count \<le> length dest"
    and k: "4 * k + 3 < count"
    and r: "symbols ! (4 * k) < 64" "symbols ! (4 * k + 1) < 64"
           "symbols ! (4 * k + 2) < 64" "symbols ! (4 * k + 3) < 64"
  shows "\<exists>dest'. pack6 dest d symbols count = Some dest'
     \<and> ucast (dest' ! (d + 3 * k)) = symbols ! (4 * k) OR push_bit 6 (symbols ! (4 * k + 1) AND 3)
     \<and> ucast (dest' ! (d + 3 * k + 1)) =
         (drop_bit 2 (symbols ! (4 * k + 1)) AND 15) OR push_bit 4 (symbols ! (4 * k + 2) AND 15)
     \<and> ucast (dest' ! (d + 3 * k + 2)) =
         (drop_bit 4 (symbols ! (4 * k + 2)) AND 3) OR push_bit 2 (symbols ! (4 * k + 3))"
proof -
  from pack6_spec [OF sb db] obtain dest' where
    pk: "pack6 dest d symbols count = Some dest'"
    and p0: "\<And>k. 4 * k < count \<Longrightarrow> dest' ! (d + 3 * k) =
            (if 4 * k + 1 < count then p6_b0 (symbols ! (4 * k)) (symbols ! (4 * k + 1))
             else ucast (symbols ! (4 * k)))"
    and p1: "\<And>k. 4 * k + 1 < count \<Longrightarrow> dest' ! (d + 3 * k + 1) =
            (if 4 * k + 2 < count then p6_b1 (symbols ! (4 * k + 1)) (symbols ! (4 * k + 2))
             else p6_t1 (symbols ! (4 * k + 1)))"
    and p2: "\<And>k. 4 * k + 2 < count \<Longrightarrow> dest' ! (d + 3 * k + 2) =
            (if 4 * k + 3 < count then p6_b2 (symbols ! (4 * k + 2)) (symbols ! (4 * k + 3))
             else p6_t2 (symbols ! (4 * k + 2)))"
    by blast
  from k have "dest' ! (d + 3 * k) = p6_b0 (symbols ! (4 * k)) (symbols ! (4 * k + 1))"
    "dest' ! (d + 3 * k + 1) = p6_b1 (symbols ! (4 * k + 1)) (symbols ! (4 * k + 2))"
    "dest' ! (d + 3 * k + 2) = p6_b2 (symbols ! (4 * k + 2)) (symbols ! (4 * k + 3))"
    using p0 [of k] p1 [of k] p2 [of k] by simp_all
  with pk r show ?thesis
    by (simp add: p6_b0_value p6_b1_value p6_b2_value)
qed

text \<open>C7 at the symbols 1, 2, 3, 4, 5: the first group is \<open>0x81\<close>, \<open>0x30\<close>, \<open>0x10\<close>.\<close>

theorem pack6_full_group_bytes_witness:
  "5 \<le> length [1, 2, 3, 4, 5 :: u32] \<and> 0 + packed_size 6 5 \<le> length [0, 0, 0, 0 :: u8]
   \<and> 4 * 0 + 3 < (5 :: nat)
   \<and> (\<exists>dest'. pack6 [0, 0, 0, 0] 0 [1, 2, 3, 4, 5] 5 = Some dest'
        \<and> ucast (dest' ! 0) = (0x81 :: u32) \<and> ucast (dest' ! 1) = (0x30 :: u32)
        \<and> ucast (dest' ! 2) = (0x10 :: u32))"
proof -
  have h: "5 \<le> length [1, 2, 3, 4, 5 :: u32]" "0 + packed_size 6 5 \<le> length [0, 0, 0, 0 :: u8]"
    "4 * 0 + 3 < (5 :: nat)"
    by (simp_all add: packed_size_def)
  have r: "[1, 2, 3, 4, 5 :: u32] ! (4 * 0) < 64" "[1, 2, 3, 4, 5 :: u32] ! (4 * 0 + 1) < 64"
    "[1, 2, 3, 4, 5 :: u32] ! (4 * 0 + 2) < 64" "[1, 2, 3, 4, 5 :: u32] ! (4 * 0 + 3) < 64"
    by simp_all
  from pack6_full_group_bytes [OF h r] obtain dest' where
    p: "pack6 [0, 0, 0, 0] 0 [1, 2, 3, 4, 5] 5 = Some dest'"
    and b: "ucast (dest' ! (0 + 3 * 0)) = [1, 2, 3, 4, 5 :: u32] ! (4 * 0) OR push_bit 6 ([1, 2, 3, 4, 5] ! (4 * 0 + 1) AND 3)"
      "ucast (dest' ! (0 + 3 * 0 + 1)) =
         (drop_bit 2 ([1, 2, 3, 4, 5 :: u32] ! (4 * 0 + 1)) AND 15) OR push_bit 4 ([1, 2, 3, 4, 5] ! (4 * 0 + 2) AND 15)"
      "ucast (dest' ! (0 + 3 * 0 + 2)) =
         (drop_bit 4 ([1, 2, 3, 4, 5 :: u32] ! (4 * 0 + 2)) AND 3) OR push_bit 2 ([1, 2, 3, 4, 5] ! (4 * 0 + 3))"
    by blast
  have ix: "(0 :: nat) + 3 * 0 = 0" "(0 :: nat) + 1 = 1" "(0 :: nat) + 2 = 2" by simp_all
  from b [unfolded ix] have "ucast (dest' ! 0) = (0x81 :: u32)" "ucast (dest' ! 1) = (0x30 :: u32)"
    "ucast (dest' ! 2) = (0x10 :: u32)" by simp_all
  with p h show ?thesis by blast
qed

text \<open>
  C8, as stated, fails. With six bits and the shape \<open>65536 x 65536\<close> the product of the
  dimensions is \<open>2^32\<close>, but \<open>Prepare\<close> leaves \<open>symbolsPerCell\<close> at 0: the product has
  wrapped around in the 32-bit member. The scratch vectors are empty and the pack buffer
  has the four bytes of the scale only. With a \<open>bitsPerSymbol\<close> of 32, which is not zero,
  \<open>1 << 32\<close> is no \<open>int\<close>: the call has undefined behaviour and no encoder with \<open>2^32\<close>
  levels is made.
\<close>

theorem Prepare_overflow_counterexample:
  "prod_list [65536, 65536 :: nat] = 4294967296
   \<and> Prepare of_nat \<lparr>m_bitsPerSymbol = 6, m_symbolsPerCell = 0, m_shape = [65536, 65536],
       m_encoder = None, m_packBuffer = None, m_symbolBuffer = [], m_dataCopyBuffer = [],
       arrays = Map.empty, encoders = Map.empty, next_addr = 0, storage = Map.empty\<rparr>
     = (None, \<lparr>m_bitsPerSymbol = 6, m_symbolsPerCell = 0, m_shape = [65536, 65536],
       m_encoder = Some 0, m_packBuffer = Some 1, m_symbolBuffer = [], m_dataCopyBuffer = [],
       arrays = [1 \<mapsto> [0, 1, 2, 3]], encoders = [0 \<mapsto> 64], next_addr = 2,
       storage = Map.empty\<rparr>)
   \<and> Prepare of_nat \<lparr>m_bitsPerSymbol = 32, m_symbolsPerCell = 0, m_shape = [3, 2], m_encoder = None,
       m_packBuffer = None, m_symbolBuffer = [], m_dataCopyBuffer = [], arrays = Map.empty,
       encoders = Map.empty, next_addr = 0, storage = Map.empty\<rparr>
     = (Some Undefined, \<lparr>m_bitsPerSymbol = 32, m_symbolsPerCell = 0, m_shape = [3, 2], m_encoder = None,
       m_packBuffer = None, m_symbolBuffer = [], m_dataCopyBuffer = [], arrays = Map.empty,
       encoders = Map.empty, next_addr = 0, storage = Map.empty\<rparr>)"
proof -
  have u: "[0..<4] = [0, 1, 2, 3]" by (simp add: upt_rec)
  have s: "shl_int 6 = Some 64" by (simp add: shl_int_def)
  have 1: "prod_list [65536, 65536 :: nat] = 4294967296" by simp
  have 2: "Prepare of_nat \<lparr>m_bitsPerSymbol = 6, m_symbolsPerCell = 0, m_shape = [65536, 65536],
       m_encoder = None, m_packBuffer = None, m_symbolBuffer = [], m_dataCopyBuffer = [],
       arrays = Map.empty, encoders = Map.empty, next_addr = 0, storage = Map.empty\<rparr>
     = (None, \<lparr>m_bitsPerSymbol = 6, m_symbolsPerCell = 0, m_shape = [65536, 65536],
       m_encoder = Some 0, m_packBuffer = Some 1, m_symbolBuffer = [], m_dataCopyBuffer = [],
       arrays = [1 \<mapsto> [0, 1, 2, 3]], encoders = [0 \<mapsto> 64], next_addr = 2,
       storage = Map.empty\<rparr>)"
    by (simp add: Prepare_def delete_encoder_def delete_packBuffer_def s new_encoder_def
        new_packBuffer_def mul_symbolsPerCell_def Stride_def sizeof_float_def resize_def u Let_def)
  have 3: "Prepare of_nat \<lparr>m_bitsPerSymbol = 32, m_symbolsPerCell = 0, m_shape = [3, 2], m_encoder = None,
       m_packBuffer = None, m_symbolBuffer = [], m_dataCopyBuffer = [], arrays = Map.empty,
       encoders = Map.empty, next_addr = 0, storage = Map.empty\<rparr>
     = (Some Undefined, \<lparr>m_bitsPerSymbol = 32, m_symbolsPerCell = 0, m_shape = [3, 2], m_encoder = None,
       m_packBuffer = None, m_symbolBuffer = [], m_dataCopyBuffer = [], arrays = Map.empty,
       encoders = Map.empty, next_addr = 0, storage = Map.empty\<rparr>)"
    by (simp add: Prepare_def delete_encoder_def shl_int_def)
  from 1 2 3 show ?thesis by (intro conjI)
qed

text \<open>
  C8, amended. Let the encoder pointer and the pack-buffer pointer of the column each be
  null or point to a live block, with every live block below the allocator's next address
  (\<open>heap_ok\<close>). Then \<open>Prepare\<close> throws \<open>OffringaStManError\<close> if and only if \<open>bitsPerSymbol\<close>
  is zero, and then leaves the state as it was. For \<open>0 < bitsPerSymbol < 31\<close> it returns
  normally with
  \<^item> \<open>symbolsPerCell\<close> the product of the dimensions of the shape modulo \<open>2^32\<close>, which is
    the product itself when that is below \<open>2^32\<close>;
  \<^item> a new encoder made with \<open>2^bitsPerSymbol\<close> levels;
  \<^item> a new pack buffer of \<open>sizeof(float) + ceil(symbolsPerCell * bitsPerSymbol / 8)\<close>
    bytes, which is the stride, for the \<open>symbolsPerCell\<close> just computed;
  \<^item> both scratch vectors of \<open>symbolsPerCell\<close> elements.

  The encoder and the pack buffer it held before are released: the live encoders and arrays
  afterwards are those of before without the old ones, with the new ones, which are fresh.
  \<open>heap_ok\<close> holds again afterwards, also after \<open>setShapeColumn\<close>, so \<open>Prepare\<close> can be
  called again.
\<close>

theorem Prepare_spec:
  assumes "heap_ok st"
  shows "(m_bitsPerSymbol st = 0 \<longrightarrow>
           Prepare uninit st =
             (Some (OffringaStManError ''bitsPerSymbol not initialized in OffringaWeightCol''), st))
     \<and> (\<forall>msg st'. Prepare uninit st = (Some (OffringaStManError msg), st') \<longrightarrow> m_bitsPerSymbol st = 0)
     \<and> (m_bitsPerSymbol st \<noteq> 0 \<and> unat (m_bitsPerSymbol st) < 31 \<longrightarrow>
          (\<exists>st' e pb buf. Prepare uninit st = (None, st')
             \<and> m_symbolsPerCell st' = prod_list (m_shape st) mod 2 ^ 32
             \<and> (prod_list (m_shape st) < 2 ^ 32 \<longrightarrow> m_symbolsPerCell st' = prod_list (m_shape st))
             \<and> m_encoder st' = Some e \<and> encoders st' e = Some (2 ^ unat (m_bitsPerSymbol st))
             \<and> m_packBuffer st' = Some pb \<and> arrays st' pb = Some buf
             \<and> length buf = sizeof_float + (m_symbolsPerCell st' * unat (m_bitsPerSymbol st) + 7) div 8
             \<and> length buf = Stride st'
             \<and> length (m_symbolBuffer st') = m_symbolsPerCell st'
             \<and> length (m_dataCopyBuffer st') = m_symbolsPerCell st'
             \<and> dom (encoders st') = dom (encoders st) - set_option (m_encoder st) \<union> {e}
             \<and> dom (arrays st') = dom (arrays st) - set_option (m_packBuffer st) \<union> {pb}
             \<and> e \<notin> dom (encoders st) \<and> pb \<notin> dom (arrays st)
             \<and> m_bitsPerSymbol st' = m_bitsPerSymbol st \<and> m_shape st' = m_shape st
             \<and> storage st' = storage st
             \<and> heap_ok st' \<and> (\<forall>shp. heap_ok (setShapeColumn shp st'))))"
proof (intro conjI impI allI)
  show "Prepare uninit st =
      (Some (OffringaStManError ''bitsPerSymbol not initialized in OffringaWeightCol''), st)"
    if "m_bitsPerSymbol st = 0"
    using that by (rule Prepare_zero)
  show "m_bitsPerSymbol st = 0" if "Prepare uninit st = (Some (OffringaStManError msg), st')" for msg st'
    using that by (rule Prepare_error_zero)
  show "\<exists>st' e pb buf. Prepare uninit st = (None, st')
             \<and> m_symbolsPerCell st' = prod_list (m_shape st) mod 2 ^ 32
             \<and> (prod_list (m_shape st) < 2 ^ 32 \<longrightarrow> m_symbolsPerCell st' = prod_list (m_shape st))
             \<and> m_encoder st' = Some e \<and> encoders st' e = Some (2 ^ unat (m_bitsPerSymbol st))
             \<and> m_packBuffer st' = Some pb \<and> arrays st' pb = Some buf
             \<and> length buf = sizeof_float + (m_symbolsPerCell st' * unat (m_bitsPerSymbol st) + 7) div 8
             \<and> length buf = Stride st'
             \<and> length (m_symbolBuffer st') = m_symbolsPerCell st'
             \<and> length (m_dataCopyBuffer st') = m_symbolsPerCell st'
             \<and> dom (encoders st') = dom (encoders st) - set_option (m_encoder st) \<union> {e}
             \<and> dom (arrays st') = dom (arrays st) - set_option (m_packBuffer st) \<union> {pb}
             \<and> e \<notin> dom (encoders st) \<and> pb \<notin> dom (arrays st)
             \<and> m_bitsPerSymbol st' = m_bitsPerSymbol st \<and> m_shape st' = m_shape st
             \<and> storage st' = storage st
             \<and> heap_ok st' \<and> (\<forall>shp. heap_ok (setShapeColumn shp st'))"
    if h: "m_bitsPerSymbol st \<noteq> 0 \<and> unat (m_bitsPerSymbol st) < 31"
  proof -
    from Prepare_ok [OF assms conjunct1 [OF h] conjunct2 [OF h], of uninit]
    obtain st' e pb buf where
      p: "Prepare uninit st = (None, st')"
      and c: "m_symbolsPerCell st' = prod_list (m_shape st) mod 2 ^ 32"
      and e: "m_encoder st' = Some e" "encoders st' e = Some (2 ^ unat (m_bitsPerSymbol st))"
      and b: "m_packBuffer st' = Some pb" "arrays st' pb = Some buf"
      and l: "length buf = sizeof_float + (prod_list (m_shape st) mod 2 ^ 32 * unat (m_bitsPerSymbol st) + 7) div 8"
        "length buf = Stride st'"
      and v: "length (m_symbolBuffer st') = prod_list (m_shape st) mod 2 ^ 32"
        "length (m_dataCopyBuffer st') = prod_list (m_shape st) mod 2 ^ 32"
      and d: "dom (encoders st') = dom (encoders st) - set_option (m_encoder st) \<union> {e}"
        "dom (arrays st') = dom (arrays st) - set_option (m_packBuffer st) \<union> {pb}"
        "e \<notin> dom (encoders st)" "pb \<notin> dom (arrays st)"
      and k: "m_bitsPerSymbol st' = m_bitsPerSymbol st" "m_shape st' = m_shape st"
        "storage st' = storage st"
      and w: "heap_ok st'"
      by (elim exE conjE)
    have c': "prod_list (m_shape st) < 2 ^ 32 \<longrightarrow> m_symbolsPerCell st' = prod_list (m_shape st)"
      unfolding c by simp
    have l': "length buf = sizeof_float + (m_symbolsPerCell st' * unat (m_bitsPerSymbol st) + 7) div 8"
      unfolding c by (rule l(1))
    have v': "length (m_symbolBuffer st') = m_symbolsPerCell st'"
      "length (m_dataCopyBuffer st') = m_symbolsPerCell st'"
      unfolding c by (rule v(1), rule v(2))
    have w': "\<forall>shp. heap_ok (setShapeColumn shp st')"
      using w by (simp add: heap_ok_def setShapeColumn_def)
    show ?thesis
      apply (rule exI [of _ st'], rule exI [of _ e], rule exI [of _ pb], rule exI [of _ buf])
      apply (intro conjI)
      apply (rule p c c' e b l' l(2) v' d k w w')+
      done
  qed
qed

text \<open>
  C8 amended, at a column that holds an encoder and a five-byte pack buffer: with six bits
  and the shape \<open>2 x 2 x 2\<close> the new buffer has ten bytes and the old blocks are gone.
\<close>

theorem Prepare_spec_witness:
  "(let S = \<lparr>m_bitsPerSymbol = 6, m_symbolsPerCell = 1, m_shape = [2, 2, 2], m_encoder = Some 0,
       m_packBuffer = Some 1, m_symbolBuffer = [7], m_dataCopyBuffer = [9],
       arrays = [1 \<mapsto> [0xAA, 0xBB, 0xCC, 0xDD, 0xEE]], encoders = [0 \<mapsto> 16],
       next_addr = 2, storage = Map.empty\<rparr>
    in heap_ok S \<and> heap_ok (S\<lparr>m_bitsPerSymbol := 0\<rparr>)
       \<and> Prepare of_nat (S\<lparr>m_bitsPerSymbol := 0\<rparr>) =
           (Some (OffringaStManError ''bitsPerSymbol not initialized in OffringaWeightCol''),
            S\<lparr>m_bitsPerSymbol := 0\<rparr>)
       \<and> (\<exists>st' e pb buf. Prepare of_nat S = (None, st')
            \<and> m_symbolsPerCell st' = 8
            \<and> m_encoder st' = Some e \<and> encoders st' e = Some 64
            \<and> m_packBuffer st' = Some pb \<and> arrays st' pb = Some buf
            \<and> length buf = 10
            \<and> length (m_symbolBuffer st') = 8 \<and> length (m_dataCopyBuffer st') = 8
            \<and> dom (encoders st') = {e} \<and> dom (arrays st') = {pb} \<and> e \<noteq> 0 \<and> pb \<noteq> 1
            \<and> heap_ok (setShapeColumn [3, 3] st')))"
proof -
  define S where "S = \<lparr>m_bitsPerSymbol = 6, m_symbolsPerCell = 1, m_shape = [2, 2, 2], m_encoder = Some 0,
       m_packBuffer = Some 1, m_symbolBuffer = [7 :: u32], m_dataCopyBuffer = [9 :: float32],
       arrays = [1 \<mapsto> [0xAA, 0xBB, 0xCC, 0xDD, 0xEE :: u8]], encoders = [0 \<mapsto> 16 :: int],
       next_addr = 2, storage = Map.empty\<rparr>"
  have w: "heap_ok S" "heap_ok (S\<lparr>m_bitsPerSymbol := 0\<rparr>)" by (auto simp: heap_ok_def S_def)
  have h: "m_bitsPerSymbol S \<noteq> 0 \<and> unat (m_bitsPerSymbol S) < 31" by (simp add: S_def)
  have z: "m_bitsPerSymbol (S\<lparr>m_bitsPerSymbol := 0\<rparr>) = 0" by simp
  from Prepare_spec [OF w(2), of of_nat, THEN conjunct1, THEN mp, OF z]
  have 1: "Prepare of_nat (S\<lparr>m_bitsPerSymbol := 0\<rparr>) =
           (Some (OffringaStManError ''bitsPerSymbol not initialized in OffringaWeightCol''),
            S\<lparr>m_bitsPerSymbol := 0\<rparr>)" .
  from Prepare_spec [OF w(1), of of_nat, THEN conjunct2, THEN conjunct2, THEN mp, OF h]
  obtain st' e pb buf where
    p: "Prepare of_nat S = (None, st')"
    "m_symbolsPerCell st' = prod_list (m_shape S) mod 2 ^ 32"
    "m_encoder st' = Some e" "encoders st' e = Some (2 ^ unat (m_bitsPerSymbol S))"
    "m_packBuffer st' = Some pb" "arrays st' pb = Some buf"
    "length buf = sizeof_float + (m_symbolsPerCell st' * unat (m_bitsPerSymbol S) + 7) div 8"
    "length (m_symbolBuffer st') = m_symbolsPerCell st'"
    "length (m_dataCopyBuffer st') = m_symbolsPerCell st'"
    "dom (encoders st') = dom (encoders S) - set_option (m_encoder S) \<union> {e}"
    "dom (arrays st') = dom (arrays S) - set_option (m_packBuffer S) \<union> {pb}"
    "e \<notin> dom (encoders S)" "pb \<notin> dom (arrays S)"
    "\<forall>shp. heap_ok (setShapeColumn shp st')"
    by (elim exE conjE)
  from p(2) have a1: "m_symbolsPerCell st' = 8" by (simp add: S_def)
  from p(4,7,8,9) have a: "encoders st' e = Some 64" "length buf = 10"
    "length (m_symbolBuffer st') = 8" "length (m_dataCopyBuffer st') = 8"
    unfolding a1 by (simp_all add: S_def sizeof_float_def)
  from p(10,11,12,13) have b: "dom (encoders st') = {e}" "dom (arrays st') = {pb}" "e \<noteq> 0" "pb \<noteq> 1"
    by (auto simp: S_def)
  from p(14) have c: "heap_ok (setShapeColumn [3, 3] st')" by (rule spec)
  have "\<exists>st' e pb buf. Prepare of_nat S = (None, st')
            \<and> m_symbolsPerCell st' = 8
            \<and> m_encoder st' = Some e \<and> encoders st' e = Some 64
            \<and> m_packBuffer st' = Some pb \<and> arrays st' pb = Some buf
            \<and> length buf = 10
            \<and> length (m_symbolBuffer st') = 8 \<and> length (m_dataCopyBuffer st') = 8
            \<and> dom (encoders st') = {e} \<and> dom (arrays st') = {pb} \<and> e \<noteq> 0 \<and> pb \<noteq> 1
            \<and> heap_ok (setShapeColumn [3, 3] st')"
    apply (rule exI [of _ st'], rule exI [of _ e], rule exI [of _ pb], rule exI [of _ buf])
    apply (intro conjI)
    apply (rule p(1) a1 p(3) a p(5) p(6) b c)+
    done
  with w 1 show ?thesis unfolding Let_def S_def [symmetric] by (intro conjI)
qed

text \<open>
  C9. \<open>Prepare\<close>, when it returns normally, leaves the column prepared. In a prepared
  column:
  \<^item> a call of \<open>putArrayfloatV\<close> that returns has asked the encoder for the scale and the
    symbols, and the cell it leaves in the pack buffer and hands to the storage is what the
    dispatcher \<open>pack\<close> makes, starting at byte \<open>sizeof(float)\<close>, of the buffer whose first
    four bytes are the scale; the cell has \<open>Stride()\<close> bytes and its first four bytes are
    still the scale; the column stays prepared;
  \<^item> the call returns when the caller's array fits the scratch vector, the bit count is
    4, 6, 8 or 12 and the encoder delivers at least \<open>symbolsPerCell\<close> symbols;
  \<^item> a call of \<open>getArrayfloatV\<close> that returns has read a cell of \<open>Stride()\<close> bytes, has
    unpacked \<open>symbolsPerCell\<close> symbols with the dispatcher \<open>unpack\<close> from byte
    \<open>sizeof(float)\<close> of the cell on and has given the decoder these symbols with the
    \<open>float\<close> in the first four bytes of the cell as the scale;
  \<^item> that call returns when the row holds \<open>Stride()\<close> bytes, the bit count is 4, 6, 8 or
    12, the symbol vector has \<open>symbolsPerCell\<close> elements and the decoder delivers at least as
    many values as the caller's array has.
\<close>

theorem cell_layout:
  "(Prepare uninit st0 = (None, st) \<longrightarrow> prepared st)
   \<and> (prepared st \<longrightarrow>
        (\<forall>st'. putArrayfloatV c rowNr dataPtr st = Some st' \<longrightarrow>
           (\<exists>e n pb old dcb scale syms cell.
               m_encoder st = Some e \<and> encoders st e = Some n
             \<and> m_packBuffer st = Some pb \<and> arrays st pb = Some old
             \<and> copy_in dataPtr 0 (m_dataCopyBuffer st) = Some dcb
             \<and> Encode c n dcb (m_symbolBuffer st) = (scale, syms)
             \<and> pack (m_bitsPerSymbol st) (float_bytes scale @ drop sizeof_float old) sizeof_float syms
                  (m_symbolsPerCell st) = Some cell
             \<and> length cell = Stride st
             \<and> take sizeof_float cell = float_bytes scale
             \<and> arrays st' pb = Some cell \<and> storage st' rowNr = Some cell
             \<and> m_symbolBuffer st' = syms \<and> m_dataCopyBuffer st' = dcb
             \<and> m_bitsPerSymbol st' = m_bitsPerSymbol st \<and> m_symbolsPerCell st' = m_symbolsPerCell st
             \<and> prepared st'))
      \<and> (length dataPtr \<le> length (m_dataCopyBuffer st) \<and> m_bitsPerSymbol st \<in> {4, 6, 8, 12}
            \<and> (\<forall>n dcb. copy_in dataPtr 0 (m_dataCopyBuffer st) = Some dcb \<longrightarrow>
                   m_symbolsPerCell st \<le> length (snd (Encode c n dcb (m_symbolBuffer st)))) \<longrightarrow>
          (\<exists>st'. putArrayfloatV c rowNr dataPtr st = Some st'))
      \<and> (\<forall>cell out st'. storage st rowNr = Some cell
            \<and> getArrayfloatV c rowNr dataPtr st = Some (out, st') \<longrightarrow>
           (\<exists>e n syms. m_encoder st = Some e \<and> encoders st e = Some n
             \<and> length cell = Stride st
             \<and> unpack (m_bitsPerSymbol st) (m_symbolBuffer st) cell sizeof_float (m_symbolsPerCell st)
                  = Some syms
             \<and> m_symbolBuffer st' = syms
             \<and> m_dataCopyBuffer st' =
                  Decode c n (bytes_float (take sizeof_float cell)) syms (m_dataCopyBuffer st)
             \<and> copy_out (length dataPtr) 0 (m_dataCopyBuffer st') dataPtr = Some out
             \<and> prepared st'))
      \<and> (\<forall>cell. storage st rowNr = Some cell \<and> length cell = Stride st
            \<and> m_bitsPerSymbol st \<in> {4, 6, 8, 12}
            \<and> m_symbolsPerCell st \<le> length (m_symbolBuffer st)
            \<and> (\<forall>n sc syms. length syms = length (m_symbolBuffer st) \<longrightarrow>
                   length dataPtr \<le> length (Decode c n sc syms (m_dataCopyBuffer st))) \<longrightarrow>
          (\<exists>r. getArrayfloatV c rowNr dataPtr st = Some r)))"
proof (intro conjI impI allI)
  show "prepared st" if "Prepare uninit st0 = (None, st)"
    using that by (rule Prepare_prepared)
next
  fix st'
  assume "prepared st" "putArrayfloatV c rowNr dataPtr st = Some st'"
  then show "\<exists>e n pb old dcb scale syms cell.
               m_encoder st = Some e \<and> encoders st e = Some n
             \<and> m_packBuffer st = Some pb \<and> arrays st pb = Some old
             \<and> copy_in dataPtr 0 (m_dataCopyBuffer st) = Some dcb
             \<and> Encode c n dcb (m_symbolBuffer st) = (scale, syms)
             \<and> pack (m_bitsPerSymbol st) (float_bytes scale @ drop sizeof_float old) sizeof_float syms
                  (m_symbolsPerCell st) = Some cell
             \<and> length cell = Stride st
             \<and> take sizeof_float cell = float_bytes scale
             \<and> arrays st' pb = Some cell \<and> storage st' rowNr = Some cell
             \<and> m_symbolBuffer st' = syms \<and> m_dataCopyBuffer st' = dcb
             \<and> m_bitsPerSymbol st' = m_bitsPerSymbol st \<and> m_symbolsPerCell st' = m_symbolsPerCell st
             \<and> prepared st'"
    by (rule put_layout)
next
  assume "prepared st"
    and "length dataPtr \<le> length (m_dataCopyBuffer st) \<and> m_bitsPerSymbol st \<in> {4, 6, 8, 12}
            \<and> (\<forall>n dcb. copy_in dataPtr 0 (m_dataCopyBuffer st) = Some dcb \<longrightarrow>
                   m_symbolsPerCell st \<le> length (snd (Encode c n dcb (m_symbolBuffer st))))"
  then show "\<exists>st'. putArrayfloatV c rowNr dataPtr st = Some st'"
    by (intro put_succeeds) auto
next
  fix cell out st'
  assume "prepared st"
    and "storage st rowNr = Some cell \<and> getArrayfloatV c rowNr dataPtr st = Some (out, st')"
  then show "\<exists>e n syms. m_encoder st = Some e \<and> encoders st e = Some n
             \<and> length cell = Stride st
             \<and> unpack (m_bitsPerSymbol st) (m_symbolBuffer st) cell sizeof_float (m_symbolsPerCell st)
                  = Some syms
             \<and> m_symbolBuffer st' = syms
             \<and> m_dataCopyBuffer st' =
                  Decode c n (bytes_float (take sizeof_float cell)) syms (m_dataCopyBuffer st)
             \<and> copy_out (length dataPtr) 0 (m_dataCopyBuffer st') dataPtr = Some out
             \<and> prepared st'"
    by (intro get_layout) auto
next
  fix cell
  assume "prepared st"
    and "storage st rowNr = Some cell \<and> length cell = Stride st
            \<and> m_bitsPerSymbol st \<in> {4, 6, 8, 12}
            \<and> m_symbolsPerCell st \<le> length (m_symbolBuffer st)
            \<and> (\<forall>n sc syms. length syms = length (m_symbolBuffer st) \<longrightarrow>
                   length dataPtr \<le> length (Decode c n sc syms (m_dataCopyBuffer st)))"
  then show "\<exists>r. getArrayfloatV c rowNr dataPtr st = Some r"
    by (intro get_succeeds [where cell = cell]) auto
qed

text \<open>
  C9 at a column of shape \<open>3 x 2\<close> with six bits, an encoder that masks each value to six
  bits with the scale \<open>1.0f\<close>, and a decoder that returns the symbols: the cell has nine
  bytes, the first four are the scale, and reading the row back succeeds.
\<close>

theorem cell_layout_witness:
  "(let S = \<lparr>m_bitsPerSymbol = 6, m_symbolsPerCell = 0, m_shape = [3, 2], m_encoder = None,
       m_packBuffer = None, m_symbolBuffer = [], m_dataCopyBuffer = [], arrays = Map.empty,
       encoders = Map.empty, next_addr = 0, storage = Map.empty\<rparr>;
        C = \<lparr>Encode = (\<lambda>n vals syms. (0x3F800000, map (\<lambda>v. v AND 63) vals)),
             Decode = (\<lambda>n scale syms vals. syms)\<rparr>
    in \<exists>st st' cell out st''. Prepare of_nat S = (None, st) \<and> prepared st
         \<and> putArrayfloatV C 7 [1, 2, 3, 4, 5, 6] st = Some st'
         \<and> storage st' 7 = Some cell \<and> length cell = 9
         \<and> take sizeof_float cell = float_bytes 0x3F800000
         \<and> getArrayfloatV C 7 [0, 0, 0, 0, 0, 0] st' = Some (out, st'')
         \<and> prepared st'')"
proof -
  define S where "S = \<lparr>m_bitsPerSymbol = 6, m_symbolsPerCell = 0, m_shape = [3, 2], m_encoder = None,
       m_packBuffer = None, m_symbolBuffer = [] :: u32 list, m_dataCopyBuffer = [] :: float32 list,
       arrays = Map.empty, encoders = Map.empty, next_addr = 0, storage = Map.empty\<rparr>"
  define C where "C = \<lparr>Encode = (\<lambda>(n :: int) (vals :: float32 list) (syms :: u32 list).
               (0x3F800000 :: float32, map (\<lambda>v. v AND 63) vals)),
             Decode = (\<lambda>(n :: int) (scale :: float32) (syms :: u32 list) (vals :: float32 list). syms)\<rparr>"
  have w: "heap_ok S" by (simp add: heap_ok_def S_def)
  have "m_bitsPerSymbol S \<noteq> 0" "unat (m_bitsPerSymbol S) < 31" by (simp_all add: S_def)
  from Prepare_ok [OF w this, of of_nat] obtain st where
    P: "Prepare of_nat S = (None, st)"
    and f: "m_symbolsPerCell st = 6" "length (m_dataCopyBuffer st) = 6" "m_bitsPerSymbol st = 6"
    by (auto simp: S_def)
  have S9: "Stride st = 9" by (simp add: Stride_def f sizeof_float_def)
  note t = cell_layout [of of_nat S st C 7 "[1, 2, 3, 4, 5, 6]"]
  from t [THEN conjunct1] P have pr: "prepared st" by (rule mp)
  note t2 = t [THEN conjunct2, THEN mp, OF pr]
  note putL = t2 [THEN conjunct1, rule_format]
  note putS = t2 [THEN conjunct2, THEN conjunct1, rule_format]
  have e: "m_symbolsPerCell st \<le> length (snd (Encode C n dcb (m_symbolBuffer st)))"
    if "copy_in [1, 2, 3, 4, 5, 6] 0 (m_dataCopyBuffer st) = Some dcb" for n dcb
    using copy_in_length [OF that] f by (simp add: C_def)
  have "length [1, 2, 3, 4, 5, 6 :: float32] \<le> length (m_dataCopyBuffer st) \<and> m_bitsPerSymbol st \<in> {4, 6, 8, 12}
      \<and> (\<forall>n dcb. copy_in [1, 2, 3, 4, 5, 6] 0 (m_dataCopyBuffer st) = Some dcb \<longrightarrow>
                   m_symbolsPerCell st \<le> length (snd (Encode C n dcb (m_symbolBuffer st))))"
    using e by (simp add: f)
  from putS [OF this] obtain st' where put: "putArrayfloatV C 7 [1, 2, 3, 4, 5, 6] st = Some st'" ..
  from putL [OF put] obtain e n pb old dcb scale syms cell where
    l: "copy_in [1, 2, 3, 4, 5, 6] 0 (m_dataCopyBuffer st) = Some dcb"
    "Encode C n dcb (m_symbolBuffer st) = (scale, syms)"
    "length cell = Stride st" "take sizeof_float cell = float_bytes scale"
    "storage st' 7 = Some cell" "m_symbolBuffer st' = syms" "m_dataCopyBuffer st' = dcb"
    "m_bitsPerSymbol st' = m_bitsPerSymbol st" "m_symbolsPerCell st' = m_symbolsPerCell st"
    "prepared st'"
    by (elim exE conjE)
  from l(2) have sc: "scale = 0x3F800000" "syms = map (\<lambda>v. v AND 63) dcb" by (simp_all add: C_def)
  from copy_in_length [OF l(1)] f have ld: "length dcb = 6" by simp
  have S': "Stride st' = Stride st" by (simp add: Stride_def l)
  note t' = cell_layout [of of_nat S st' C 7 "[0, 0, 0, 0, 0, 0]"]
  note t2' = t' [THEN conjunct2, THEN mp, OF l(10)]
  note getL = t2' [THEN conjunct2, THEN conjunct2, THEN conjunct1, rule_format]
  note getS = t2' [THEN conjunct2, THEN conjunct2, THEN conjunct2, rule_format]
  have "storage st' 7 = Some cell \<and> length cell = Stride st'
            \<and> m_bitsPerSymbol st' \<in> {4, 6, 8, 12}
            \<and> m_symbolsPerCell st' \<le> length (m_symbolBuffer st')
            \<and> (\<forall>n sc syms. length syms = length (m_symbolBuffer st') \<longrightarrow>
                   length [0, 0, 0, 0, 0, 0 :: float32] \<le> length (Decode C n sc syms (m_dataCopyBuffer st')))"
    using l f ld sc S' by (simp add: C_def)
  from getS [OF this] obtain r where "getArrayfloatV C 7 [0, 0, 0, 0, 0, 0] st' = Some r" ..
  then obtain out st'' where get: "getArrayfloatV C 7 [0, 0, 0, 0, 0, 0] st' = Some (out, st'')"
    by (cases r) auto
  from getL [OF conjI, OF l(5) get] obtain syms' where
    g: "unpack (m_bitsPerSymbol st') (m_symbolBuffer st') cell sizeof_float (m_symbolsPerCell st') = Some syms'"
    "m_symbolBuffer st'' = syms'" "prepared st''"
    by (elim exE conjE)
  have "\<exists>st st' cell out st''. Prepare of_nat S = (None, st) \<and> prepared st
         \<and> putArrayfloatV C 7 [1, 2, 3, 4, 5, 6] st = Some st'
         \<and> storage st' 7 = Some cell \<and> length cell = 9
         \<and> take sizeof_float cell = float_bytes 0x3F800000
         \<and> getArrayfloatV C 7 [0, 0, 0, 0, 0, 0] st' = Some (out, st'')
         \<and> prepared st''"
    using P pr put l(5) l(3) [unfolded S9] l(4) [unfolded sc] get g(3) by blast
  then show ?thesis unfolding Let_def S_def C_def .
qed

text \<open>
  C10. For each width 4, 6, 8 and 12, every count and every packed array, whatever its bytes:
  when the symbol array has room for \<open>count\<close> symbols and the packed array holds
  \<open>ceil(count * w / 8)\<close> bytes from the pointer on, unpacking succeeds and each of the
  \<open>count\<close> symbols it writes is below \<open>2^w\<close>.
\<close>

theorem unpack_symbols_in_range:
  assumes "count \<le> length out"
  shows "(p + packed_size 4 count \<le> length packed \<longrightarrow>
           (\<exists>out'. unpack4 out packed p count = Some out' \<and> (\<forall>i < count. out' ! i < 2 ^ 4)))
       \<and> (p + packed_size 6 count \<le> length packed \<longrightarrow>
           (\<exists>out'. unpack6 out packed p count = Some out' \<and> (\<forall>i < count. out' ! i < 2 ^ 6)))
       \<and> (p + packed_size 8 count \<le> length packed \<longrightarrow>
           (\<exists>out'. unpack8 out packed p count = Some out' \<and> (\<forall>i < count. out' ! i < 2 ^ 8)))
       \<and> (p + packed_size 12 count \<le> length packed \<longrightarrow>
           (\<exists>out'. unpack12 out packed p count = Some out' \<and> (\<forall>i < count. out' ! i < 2 ^ 12)))"
proof (intro conjI impI)
  assume h: "p + packed_size 4 count \<le> length packed"
  from unpack4_spec [OF assms h] obtain out' where
    u: "unpack4 out packed p count = Some out'"
    and u0: "\<And>k. 2 * k < count \<Longrightarrow> out' ! (2 * k) = u4_lo (packed ! (p + k))"
    and u1: "\<And>k. 2 * k + 1 < count \<Longrightarrow> out' ! (2 * k + 1) = u4_hi (packed ! (p + k))"
    by blast
  have "out' ! i < 2 ^ 4" if i: "i < count" for i
  proof -
    obtain k m where ik: "i = 2 * k + m" and m: "m = 0 \<or> m = 1" by (rule split2)
    from m show ?thesis
      using i ik u0 [of k] u1 [of k] u4_lo_lt u4_hi_lt by (elim disjE) simp_all
  qed
  with u show "\<exists>out'. unpack4 out packed p count = Some out' \<and> (\<forall>i < count. out' ! i < 2 ^ 4)"
    by blast
next
  assume h: "p + packed_size 6 count \<le> length packed"
  from unpack6_spec [OF assms h] obtain out' where
    u: "unpack6 out packed p count = Some out'"
    and u0: "\<And>k. 4 * k < count \<Longrightarrow> out' ! (4 * k) = u6_a (packed ! (p + 3 * k))"
    and u1: "\<And>k. 4 * k + 1 < count \<Longrightarrow>
            out' ! (4 * k + 1) = u6_b (packed ! (p + 3 * k)) (packed ! (p + 3 * k + 1))"
    and u2: "\<And>k. 4 * k + 2 < count \<Longrightarrow>
            out' ! (4 * k + 2) = u6_c (packed ! (p + 3 * k + 1)) (packed ! (p + 3 * k + 2))"
    and u3: "\<And>k. 4 * k + 3 < count \<Longrightarrow> out' ! (4 * k + 3) = u6_d (packed ! (p + 3 * k + 2))"
    by blast
  have "out' ! i < 2 ^ 6" if i: "i < count" for i
  proof -
    obtain k m where ik: "i = 4 * k + m" and m: "m = 0 \<or> m = 1 \<or> m = 2 \<or> m = 3" by (rule split4)
    from m show ?thesis
      using i ik u0 [of k] u1 [of k] u2 [of k] u3 [of k] u6_a_lt u6_b_lt u6_c_lt u6_d_lt
      by (elim disjE) simp_all
  qed
  with u show "\<exists>out'. unpack6 out packed p count = Some out' \<and> (\<forall>i < count. out' ! i < 2 ^ 6)"
    by blast
next
  assume h: "p + packed_size 8 count \<le> length packed"
  from unpack8_spec [OF assms h] obtain out' where
    u: "unpack8 out packed p count = Some out'"
    and u0: "\<And>j. j < count \<Longrightarrow> out' ! j = ucast (packed ! (p + j))"
    by blast
  have "out' ! i < 2 ^ 8" if i: "i < count" for i
    using u0 [OF i] ucast8_lt [of "packed ! (p + i)"] by simp
  with u show "\<exists>out'. unpack8 out packed p count = Some out' \<and> (\<forall>i < count. out' ! i < 2 ^ 8)"
    by blast
next
  assume h: "p + packed_size 12 count \<le> length packed"
  from unpack12_spec [OF assms h] obtain out' where
    u: "unpack12 out packed p count = Some out'"
    and u0: "\<And>k. 2 * k < count \<Longrightarrow>
           out' ! (2 * k) = u12_a (packed ! (p + 3 * k)) (packed ! (p + 3 * k + 1))"
    and u1: "\<And>k. 2 * k + 1 < count \<Longrightarrow>
           out' ! (2 * k + 1) = u12_b (packed ! (p + 3 * k + 1)) (packed ! (p + 3 * k + 2))"
    by blast
  have "out' ! i < 2 ^ 12" if i: "i < count" for i
  proof -
    obtain k m where ik: "i = 2 * k + m" and m: "m = 0 \<or> m = 1" by (rule split2)
    from m show ?thesis
      using i ik u0 [of k] u1 [of k] u12_a_lt u12_b_lt by (elim disjE) simp_all
  qed
  with u show "\<exists>out'. unpack12 out packed p count = Some out' \<and> (\<forall>i < count. out' ! i < 2 ^ 12)"
    by blast
qed

text \<open>C10 at five bytes \<open>0xFF\<close> and three symbols, all four widths.\<close>

theorem unpack_symbols_in_range_witness:
  "3 \<le> length [0, 0, 0 :: u32]
   \<and> 0 + packed_size 12 3 \<le> length [0xFF, 0xFF, 0xFF, 0xFF, 0xFF :: u8]
   \<and> (\<exists>out'. unpack4 [0, 0, 0] [0xFF, 0xFF, 0xFF, 0xFF, 0xFF] 0 3 = Some out' \<and> (\<forall>i < 3. out' ! i < 2 ^ 4))
   \<and> (\<exists>out'. unpack6 [0, 0, 0] [0xFF, 0xFF, 0xFF, 0xFF, 0xFF] 0 3 = Some out' \<and> (\<forall>i < 3. out' ! i < 2 ^ 6))
   \<and> (\<exists>out'. unpack8 [0, 0, 0] [0xFF, 0xFF, 0xFF, 0xFF, 0xFF] 0 3 = Some out' \<and> (\<forall>i < 3. out' ! i < 2 ^ 8))
   \<and> (\<exists>out'. unpack12 [0, 0, 0] [0xFF, 0xFF, 0xFF, 0xFF, 0xFF] 0 3 = Some out' \<and> (\<forall>i < 3. out' ! i < 2 ^ 12))"
proof -
  have l: "3 \<le> length [0, 0, 0 :: u32]" by simp
  have s: "0 + packed_size 4 3 \<le> length [0xFF, 0xFF, 0xFF, 0xFF, 0xFF :: u8]"
    "0 + packed_size 6 3 \<le> length [0xFF, 0xFF, 0xFF, 0xFF, 0xFF :: u8]"
    "0 + packed_size 8 3 \<le> length [0xFF, 0xFF, 0xFF, 0xFF, 0xFF :: u8]"
    "0 + packed_size 12 3 \<le> length [0xFF, 0xFF, 0xFF, 0xFF, 0xFF :: u8]"
    by (simp_all add: packed_size_def)
  from unpack_symbols_in_range [OF l, of 0 "[0xFF, 0xFF, 0xFF, 0xFF, 0xFF]"] l s show ?thesis by blast
qed

end
